theory Spec2Isabelle
  imports Main "HOL-Library.Monad_Syntax" "HOL-Library.Multiset" "HOL-Library.Sublist"
begin

section \<open>The doubly-linked list of \<^verbatim>\<open>src/list.hpp\<close>\<close>

text \<open>
  The container \<^verbatim>\<open>sjtu::list<T>\<close> is a chain of heap nodes between two sentinel nodes.
  The model keeps the heap explicit, because the claims are about links, node identity
  and aliasing between containers:
  \<^item> a node pointer is a \<open>nat option\<close> (\<open>None\<close> is \<^verbatim>\<open>nullptr\<close>); the node heap is a list
    of cells indexed by address, a freed or never allocated cell is \<open>None\<close>, and
    \<^verbatim>\<open>new\<close> appends a cell, so that a new address is never one in use;
  \<^item> a container object lives at an address of its own (its \<^verbatim>\<open>this\<close>), which is what
    \<^verbatim>\<open>pos.container != this\<close> and \<^verbatim>\<open>this == &other\<close> compare;
  \<^item> a function returns \<open>None\<close> when the C++ has no defined result: a null or dangling
    pointer is dereferenced, an unconstructed value is read, or a loop does not end;
  \<^item> a thrown exception is a value: a throwing function returns \<open>(Inl e, s)\<close> with the
    state \<open>s\<close> at the moment of the throw, or \<open>(Inr r, s)\<close> with its result.
\<close>

subsection \<open>Data model\<close>

datatype error = invalid_iterator | container_is_empty

text \<open>\<^verbatim>\<open>class node\<close>: the value (absent in a sentinel, which is raw memory whose \<^verbatim>\<open>T\<close> was
  never constructed) and the two links.\<close>

record 'a node =
  data :: "'a option"
  prev :: "nat option"
  "next" :: "nat option"

text \<open>The members of \<^verbatim>\<open>class list\<close>. \<^verbatim>\<open>list_size\<close> is a \<^verbatim>\<open>size_t\<close>; it is kept as a natural
  number with the wrap-around of \<^verbatim>\<open>list_size--\<close> at zero written out (64-bit \<^verbatim>\<open>size_t\<close>).
  \<^verbatim>\<open>list_size++\<close> is written without one: the heap of the model is unbounded and \<^verbatim>\<open>new\<close>
  never fails, whereas a counter of distinct live nodes in a 64-bit address space stays
  far below \<open>2 ^ 64\<close>.\<close>

record list_rep =
  head :: nat
  tail :: nat
  list_size :: nat

record 'a state =
  nodes :: "'a node option list"
  objs :: "list_rep list"

text \<open>\<^verbatim>\<open>class iterator\<close> and \<^verbatim>\<open>class const_iterator\<close> have the same two members.\<close>

record iterator =
  current :: "nat option"
  container :: "nat option"

type_synonym const_iterator = iterator

subsection \<open>Memory access\<close>

definition node_at :: "'a state \<Rightarrow> nat \<Rightarrow> 'a node option" where
  "node_at s a = (if a < length (nodes s) then nodes s ! a else None)"

definition obj_at :: "'a state \<Rightarrow> nat \<Rightarrow> list_rep option" where
  "obj_at s l = (if l < length (objs s) then Some (objs s ! l) else None)"

definition deref :: "'a state \<Rightarrow> nat option \<Rightarrow> 'a node option" where
  "deref s p = (case p of None \<Rightarrow> None | Some a \<Rightarrow> node_at s a)"

definition deref_list :: "'a state \<Rightarrow> nat option \<Rightarrow> list_rep option" where
  "deref_list s p = (case p of None \<Rightarrow> None | Some l \<Rightarrow> obj_at s l)"

definition put_node :: "'a state \<Rightarrow> nat \<Rightarrow> 'a node option \<Rightarrow> 'a state" where
  "put_node s a c = s\<lparr>nodes := (nodes s)[a := c]\<rparr>"

definition put_obj :: "'a state \<Rightarrow> nat \<Rightarrow> list_rep \<Rightarrow> 'a state" where
  "put_obj s l L = s\<lparr>objs := (objs s)[l := L]\<rparr>"

text \<open>\<^verbatim>\<open>p->prev = v\<close>, \<^verbatim>\<open>p->next = v\<close> and an assignment to \<^verbatim>\<open>p->data\<close>.\<close>

definition set_prev :: "'a state \<Rightarrow> nat option \<Rightarrow> nat option \<Rightarrow> 'a state option" where
  "set_prev s p v =
     (case p of None \<Rightarrow> None
      | Some a \<Rightarrow> (case node_at s a of None \<Rightarrow> None
                  | Some n \<Rightarrow> Some (put_node s a (Some (n\<lparr>prev := v\<rparr>)))))"

definition set_next :: "'a state \<Rightarrow> nat option \<Rightarrow> nat option \<Rightarrow> 'a state option" where
  "set_next s p v =
     (case p of None \<Rightarrow> None
      | Some a \<Rightarrow> (case node_at s a of None \<Rightarrow> None
                  | Some n \<Rightarrow> Some (put_node s a (Some (n\<lparr>next := v\<rparr>)))))"

definition read_data :: "'a state \<Rightarrow> nat \<Rightarrow> 'a option" where
  "read_data s a = (case node_at s a of None \<Rightarrow> None | Some n \<Rightarrow> data n)"

definition write_data :: "'a state \<Rightarrow> nat \<Rightarrow> 'a \<Rightarrow> 'a state option" where
  "write_data s a v =
     (case node_at s a of None \<Rightarrow> None
      | Some n \<Rightarrow> (case data n of None \<Rightarrow> None
                  | Some _ \<Rightarrow> Some (put_node s a (Some (n\<lparr>data := Some v\<rparr>)))))"

text \<open>\<^verbatim>\<open>::operator new(sizeof(node))\<close> gives raw memory, \<^verbatim>\<open>new node(value)\<close> a constructed
  node with both links null, \<^verbatim>\<open>delete p\<close> frees a live node (and does nothing on null).\<close>

definition raw_node :: "'a node" where
  "raw_node = \<lparr>data = None, prev = None, next = None\<rparr>"

definition alloc_cell :: "'a state \<Rightarrow> 'a node \<Rightarrow> nat \<times> 'a state" where
  "alloc_cell s n = (length (nodes s), s\<lparr>nodes := nodes s @ [Some n]\<rparr>)"

definition new_raw :: "'a state \<Rightarrow> nat \<times> 'a state" where
  "new_raw s = alloc_cell s raw_node"

definition new_node :: "'a state \<Rightarrow> 'a \<Rightarrow> nat \<times> 'a state" where
  "new_node s v = alloc_cell s \<lparr>data = Some v, prev = None, next = None\<rparr>"

definition delete_node :: "'a state \<Rightarrow> nat option \<Rightarrow> 'a state option" where
  "delete_node s p =
     (case p of None \<Rightarrow> Some s
      | Some a \<Rightarrow> (case node_at s a of None \<Rightarrow> None | Some _ \<Rightarrow> Some (put_node s a None)))"

subsection \<open>The two private primitives\<close>

definition size_incr :: "'a state \<Rightarrow> nat \<Rightarrow> 'a state option" where
  "size_incr s this =
     (case obj_at s this of None \<Rightarrow> None
      | Some L \<Rightarrow> Some (put_obj s this (L\<lparr>list_size := list_size L + 1\<rparr>)))"

definition size_decr :: "'a state \<Rightarrow> nat \<Rightarrow> 'a state option" where
  "size_decr s this =
     (case obj_at s this of None \<Rightarrow> None
      | Some L \<Rightarrow> Some (put_obj s this
          (L\<lparr>list_size := (if list_size L = 0 then 2 ^ 64 - 1 else list_size L - 1)\<rparr>)))"

text \<open>\<^verbatim>\<open>node *insert(node *pos, node *cur)\<close>, one line of the model per statement.\<close>

definition insert_node ::
  "'a state \<Rightarrow> nat \<Rightarrow> nat option \<Rightarrow> nat option \<Rightarrow> (nat option \<times> 'a state) option" where
  "insert_node s this pos cur = do {
     pn \<leftarrow> deref s pos;
     s1 \<leftarrow> set_prev s cur (prev pn);
     s2 \<leftarrow> set_next s1 cur pos;
     pn2 \<leftarrow> deref s2 pos;
     s3 \<leftarrow> set_next s2 (prev pn2) cur;
     s4 \<leftarrow> set_prev s3 pos cur;
     s5 \<leftarrow> size_incr s4 this;
     Some (cur, s5)
   }"

text \<open>\<^verbatim>\<open>node *erase(node *pos)\<close>.\<close>

definition erase_node ::
  "'a state \<Rightarrow> nat \<Rightarrow> nat option \<Rightarrow> (nat option \<times> 'a state) option" where
  "erase_node s this pos = do {
     pn \<leftarrow> deref s pos;
     s1 \<leftarrow> set_next s (prev pn) (next pn);
     pn2 \<leftarrow> deref s1 pos;
     s2 \<leftarrow> set_prev s1 (next pn2) (prev pn2);
     s3 \<leftarrow> size_decr s2 this;
     Some (pos, s3)
   }"

subsection \<open>Iterators\<close>

text \<open>An iterator operation returns its outcome and the iterator object as it is after
  the call. The operators read \<^verbatim>\<open>container->tail\<close> or \<^verbatim>\<open>container->head->next\<close> only when
  \<^verbatim>\<open>current\<close> is not null (\<^verbatim>\<open>||\<close> evaluates left to right).\<close>

definition iter_postinc ::
  "'a state \<Rightarrow> iterator \<Rightarrow> ((error + iterator) \<times> iterator) option" where
  "iter_postinc s it =
     (case current it of None \<Rightarrow> Some (Inl invalid_iterator, it)
      | Some c \<Rightarrow> do {
          L \<leftarrow> deref_list s (container it);
          if c = tail L then Some (Inl invalid_iterator, it)
          else do { n \<leftarrow> node_at s c; Some (Inr it, it\<lparr>current := next n\<rparr>) }
        })"

definition iter_preinc ::
  "'a state \<Rightarrow> iterator \<Rightarrow> ((error + iterator) \<times> iterator) option" where
  "iter_preinc s it =
     (case current it of None \<Rightarrow> Some (Inl invalid_iterator, it)
      | Some c \<Rightarrow> do {
          L \<leftarrow> deref_list s (container it);
          if c = tail L then Some (Inl invalid_iterator, it)
          else do { n \<leftarrow> node_at s c;
                    Some (Inr (it\<lparr>current := next n\<rparr>), it\<lparr>current := next n\<rparr>) }
        })"

definition iter_postdec ::
  "'a state \<Rightarrow> iterator \<Rightarrow> ((error + iterator) \<times> iterator) option" where
  "iter_postdec s it =
     (case current it of None \<Rightarrow> Some (Inl invalid_iterator, it)
      | Some c \<Rightarrow> do {
          L \<leftarrow> deref_list s (container it);
          hn \<leftarrow> node_at s (head L);
          if Some c = next hn then Some (Inl invalid_iterator, it)
          else do { n \<leftarrow> node_at s c; Some (Inr it, it\<lparr>current := prev n\<rparr>) }
        })"

definition iter_predec ::
  "'a state \<Rightarrow> iterator \<Rightarrow> ((error + iterator) \<times> iterator) option" where
  "iter_predec s it =
     (case current it of None \<Rightarrow> Some (Inl invalid_iterator, it)
      | Some c \<Rightarrow> do {
          L \<leftarrow> deref_list s (container it);
          hn \<leftarrow> node_at s (head L);
          if Some c = next hn then Some (Inl invalid_iterator, it)
          else do { n \<leftarrow> node_at s c;
                    Some (Inr (it\<lparr>current := prev n\<rparr>), it\<lparr>current := prev n\<rparr>) }
        })"

text \<open>\<^verbatim>\<open>operator*\<close> returns a reference to \<^verbatim>\<open>current->data\<close> and \<^verbatim>\<open>operator->\<close> its address:
  in the model both return the address of the node whose value is referred to, which
  \<open>read_data\<close> and \<open>write_data\<close> then use.\<close>

definition iter_deref :: "'a state \<Rightarrow> iterator \<Rightarrow> (error + nat) option" where
  "iter_deref s it =
     (case current it of None \<Rightarrow> Some (Inl invalid_iterator)
      | Some c \<Rightarrow> do {
          L \<leftarrow> deref_list s (container it);
          if c = head L \<or> c = tail L then Some (Inl invalid_iterator)
          else do { n \<leftarrow> node_at s c; Some (Inr c) }
        })"

definition iter_arrow :: "'a state \<Rightarrow> iterator \<Rightarrow> (error + nat) option" where
  "iter_arrow s it =
     (case current it of None \<Rightarrow> Some (Inl invalid_iterator)
      | Some c \<Rightarrow> do {
          L \<leftarrow> deref_list s (container it);
          if c = head L \<or> c = tail L then Some (Inl invalid_iterator)
          else do { n \<leftarrow> node_at s c; Some (Inr c) }
        })"

definition iter_eq :: "iterator \<Rightarrow> iterator \<Rightarrow> bool" where
  "iter_eq it rhs = (current it = current rhs)"

definition iter_neq :: "iterator \<Rightarrow> iterator \<Rightarrow> bool" where
  "iter_neq it rhs = (current it \<noteq> current rhs)"

text \<open>The same operators of \<^verbatim>\<open>const_iterator\<close>, and its construction from an iterator.\<close>

definition citer_of_iter :: "iterator \<Rightarrow> const_iterator" where
  "citer_of_iter it = \<lparr>current = current it, container = container it\<rparr>"

definition citer_postinc ::
  "'a state \<Rightarrow> const_iterator \<Rightarrow> ((error + const_iterator) \<times> const_iterator) option" where
  "citer_postinc s it =
     (case current it of None \<Rightarrow> Some (Inl invalid_iterator, it)
      | Some c \<Rightarrow> do {
          L \<leftarrow> deref_list s (container it);
          if c = tail L then Some (Inl invalid_iterator, it)
          else do { n \<leftarrow> node_at s c; Some (Inr it, it\<lparr>current := next n\<rparr>) }
        })"

definition citer_preinc ::
  "'a state \<Rightarrow> const_iterator \<Rightarrow> ((error + const_iterator) \<times> const_iterator) option" where
  "citer_preinc s it =
     (case current it of None \<Rightarrow> Some (Inl invalid_iterator, it)
      | Some c \<Rightarrow> do {
          L \<leftarrow> deref_list s (container it);
          if c = tail L then Some (Inl invalid_iterator, it)
          else do { n \<leftarrow> node_at s c;
                    Some (Inr (it\<lparr>current := next n\<rparr>), it\<lparr>current := next n\<rparr>) }
        })"

definition citer_postdec ::
  "'a state \<Rightarrow> const_iterator \<Rightarrow> ((error + const_iterator) \<times> const_iterator) option" where
  "citer_postdec s it =
     (case current it of None \<Rightarrow> Some (Inl invalid_iterator, it)
      | Some c \<Rightarrow> do {
          L \<leftarrow> deref_list s (container it);
          hn \<leftarrow> node_at s (head L);
          if Some c = next hn then Some (Inl invalid_iterator, it)
          else do { n \<leftarrow> node_at s c; Some (Inr it, it\<lparr>current := prev n\<rparr>) }
        })"

definition citer_predec ::
  "'a state \<Rightarrow> const_iterator \<Rightarrow> ((error + const_iterator) \<times> const_iterator) option" where
  "citer_predec s it =
     (case current it of None \<Rightarrow> Some (Inl invalid_iterator, it)
      | Some c \<Rightarrow> do {
          L \<leftarrow> deref_list s (container it);
          hn \<leftarrow> node_at s (head L);
          if Some c = next hn then Some (Inl invalid_iterator, it)
          else do { n \<leftarrow> node_at s c;
                    Some (Inr (it\<lparr>current := prev n\<rparr>), it\<lparr>current := prev n\<rparr>) }
        })"

definition citer_deref :: "'a state \<Rightarrow> const_iterator \<Rightarrow> (error + nat) option" where
  "citer_deref s it =
     (case current it of None \<Rightarrow> Some (Inl invalid_iterator)
      | Some c \<Rightarrow> do {
          L \<leftarrow> deref_list s (container it);
          if c = head L \<or> c = tail L then Some (Inl invalid_iterator)
          else do { n \<leftarrow> node_at s c; Some (Inr c) }
        })"

definition citer_arrow :: "'a state \<Rightarrow> const_iterator \<Rightarrow> (error + nat) option" where
  "citer_arrow s it =
     (case current it of None \<Rightarrow> Some (Inl invalid_iterator)
      | Some c \<Rightarrow> do {
          L \<leftarrow> deref_list s (container it);
          if c = head L \<or> c = tail L then Some (Inl invalid_iterator)
          else do { n \<leftarrow> node_at s c; Some (Inr c) }
        })"

subsection \<open>Construction and the simple queries\<close>

text \<open>\<^verbatim>\<open>list()\<close>: the new object is placed at the next free object address.\<close>

definition list_ctor :: "'a state \<Rightarrow> (nat \<times> 'a state) option" where
  "list_ctor s = do {
     let this = length (objs s);
     let (h, s1) = new_raw s;
     let (t, s2) = new_raw s1;
     s3 \<leftarrow> set_prev s2 (Some h) None;
     s4 \<leftarrow> set_next s3 (Some h) (Some t);
     s5 \<leftarrow> set_prev s4 (Some t) (Some h);
     s6 \<leftarrow> set_next s5 (Some t) None;
     Some (this, s6\<lparr>objs := objs s6 @ [\<lparr>head = h, tail = t, list_size = 0\<rparr>]\<rparr>)
   }"

definition empty_list :: "'a state \<Rightarrow> nat \<Rightarrow> bool option" where
  "empty_list s this = do { L \<leftarrow> obj_at s this; Some (list_size L = 0) }"

definition size_list :: "'a state \<Rightarrow> nat \<Rightarrow> nat option" where
  "size_list s this = do { L \<leftarrow> obj_at s this; Some (list_size L) }"

definition begin_list :: "'a state \<Rightarrow> nat \<Rightarrow> iterator option" where
  "begin_list s this = do {
     L \<leftarrow> obj_at s this;
     hn \<leftarrow> node_at s (head L);
     Some \<lparr>current = next hn, container = Some this\<rparr>
   }"

definition cbegin :: "'a state \<Rightarrow> nat \<Rightarrow> const_iterator option" where
  "cbegin s this = do {
     L \<leftarrow> obj_at s this;
     hn \<leftarrow> node_at s (head L);
     Some \<lparr>current = next hn, container = Some this\<rparr>
   }"

definition end_list :: "'a state \<Rightarrow> nat \<Rightarrow> iterator option" where
  "end_list s this = do {
     L \<leftarrow> obj_at s this;
     Some \<lparr>current = Some (tail L), container = Some this\<rparr>
   }"

definition cend :: "'a state \<Rightarrow> nat \<Rightarrow> const_iterator option" where
  "cend s this = do {
     L \<leftarrow> obj_at s this;
     Some \<lparr>current = Some (tail L), container = Some this\<rparr>
   }"

text \<open>\<^verbatim>\<open>front()\<close> and \<^verbatim>\<open>back()\<close> return a reference: the address of the node holding the
  value.\<close>

definition front :: "'a state \<Rightarrow> nat \<Rightarrow> ((error + nat option) \<times> 'a state) option" where
  "front s this = do {
     e \<leftarrow> empty_list s this;
     if e then Some (Inl container_is_empty, s)
     else do {
       L \<leftarrow> obj_at s this;
       hn \<leftarrow> node_at s (head L);
       n \<leftarrow> deref s (next hn);
       Some (Inr (next hn), s)
     }
   }"

definition back_list :: "'a state \<Rightarrow> nat \<Rightarrow> ((error + nat option) \<times> 'a state) option" where
  "back_list s this = do {
     e \<leftarrow> empty_list s this;
     if e then Some (Inl container_is_empty, s)
     else do {
       L \<leftarrow> obj_at s this;
       tn \<leftarrow> node_at s (tail L);
       n \<leftarrow> deref s (prev tn);
       Some (Inr (prev tn), s)
     }
   }"

subsection \<open>Insertion and removal\<close>

definition insert_iter ::
  "'a state \<Rightarrow> nat \<Rightarrow> iterator \<Rightarrow> 'a \<Rightarrow> ((error + iterator) \<times> 'a state) option" where
  "insert_iter s this pos v =
     (if container pos \<noteq> Some this then Some (Inl invalid_iterator, s)
      else do {
        let (new_node, s1) = new_node s v;
        let pos_node = current pos;
        (_, s2) \<leftarrow> insert_node s1 this pos_node (Some new_node);
        Some (Inr \<lparr>current = Some new_node, container = Some this\<rparr>, s2)
      })"

definition erase_iter ::
  "'a state \<Rightarrow> nat \<Rightarrow> iterator \<Rightarrow> ((error + iterator) \<times> 'a state) option" where
  "erase_iter s this pos = do {
     e \<leftarrow> empty_list s this;
     if e then Some (Inl container_is_empty, s)
     else do {
       en \<leftarrow> end_list s this;
       if container pos \<noteq> Some this \<or> iter_eq pos en then Some (Inl invalid_iterator, s)
       else do {
         let pos_node = current pos;
         pn \<leftarrow> deref s pos_node;
         let next_node = next pn;
         (_, s1) \<leftarrow> erase_node s this pos_node;
         s2 \<leftarrow> delete_node s1 pos_node;
         Some (Inr \<lparr>current = next_node, container = Some this\<rparr>, s2)
       }
     }
   }"

definition push_back :: "'a state \<Rightarrow> nat \<Rightarrow> 'a \<Rightarrow> 'a state option" where
  "push_back s this v = do {
     let (new_node, s1) = new_node s v;
     L \<leftarrow> obj_at s1 this;
     (_, s2) \<leftarrow> insert_node s1 this (Some (tail L)) (Some new_node);
     Some s2
   }"

definition pop_back :: "'a state \<Rightarrow> nat \<Rightarrow> ((error + unit) \<times> 'a state) option" where
  "pop_back s this = do {
     e \<leftarrow> empty_list s this;
     if e then Some (Inl container_is_empty, s)
     else do {
       L \<leftarrow> obj_at s this;
       tn \<leftarrow> node_at s (tail L);
       let last_node = prev tn;
       (_, s1) \<leftarrow> erase_node s this last_node;
       s2 \<leftarrow> delete_node s1 last_node;
       Some (Inr (), s2)
     }
   }"

definition push_front :: "'a state \<Rightarrow> nat \<Rightarrow> 'a \<Rightarrow> 'a state option" where
  "push_front s this v = do {
     let (new_node, s1) = new_node s v;
     L \<leftarrow> obj_at s1 this;
     hn \<leftarrow> node_at s1 (head L);
     (_, s2) \<leftarrow> insert_node s1 this (next hn) (Some new_node);
     Some s2
   }"

definition pop_front :: "'a state \<Rightarrow> nat \<Rightarrow> ((error + unit) \<times> 'a state) option" where
  "pop_front s this = do {
     e \<leftarrow> empty_list s this;
     if e then Some (Inl container_is_empty, s)
     else do {
       L \<leftarrow> obj_at s this;
       hn \<leftarrow> node_at s (head L);
       let first_node = next hn;
       (_, s1) \<leftarrow> erase_node s this first_node;
       s2 \<leftarrow> delete_node s1 first_node;
       Some (Inr (), s2)
     }
   }"

text \<open>\<^verbatim>\<open>clear()\<close>: \<^verbatim>\<open>while (!empty()) pop_front();\<close>\<close>

partial_function (option) clear :: "'a state \<Rightarrow> nat \<Rightarrow> ((error + unit) \<times> 'a state) option" where
  "clear s this = do {
     e \<leftarrow> empty_list s this;
     if \<not> e then
       (case pop_front s this of None \<Rightarrow> None
        | Some (Inl err, s1) \<Rightarrow> Some (Inl err, s1)
        | Some (Inr _, s1) \<Rightarrow> clear s1 this)
     else Some (Inr (), s)
   }"

declare clear.simps [code]

subsection \<open>Copying\<close>

definition citer_eq :: "const_iterator \<Rightarrow> const_iterator \<Rightarrow> bool" where
  "citer_eq it rhs = (current it = current rhs)"

definition citer_neq :: "const_iterator \<Rightarrow> const_iterator \<Rightarrow> bool" where
  "citer_neq it rhs = (current it \<noteq> current rhs)"

text \<open>The loop of the copy constructor and of \<^verbatim>\<open>operator=\<close>:
  \<^verbatim>\<open>for (const_iterator it = other.cbegin(); it != other.cend(); ++it) push_back(*it);\<close>\<close>

partial_function (option) copy_loop ::
  "'a state \<Rightarrow> nat \<Rightarrow> nat \<Rightarrow> const_iterator \<Rightarrow> ((error + unit) \<times> 'a state) option" where
  "copy_loop s this other it = do {
     e \<leftarrow> cend s other;
     if citer_neq it e then
       (case citer_deref s it of None \<Rightarrow> None
        | Some (Inl err) \<Rightarrow> Some (Inl err, s)
        | Some (Inr r) \<Rightarrow> do {
            v \<leftarrow> read_data s r;
            s1 \<leftarrow> push_back s this v;
            (case citer_preinc s1 it of None \<Rightarrow> None
             | Some (Inl err, _) \<Rightarrow> Some (Inl err, s1)
             | Some (Inr _, it1) \<Rightarrow> copy_loop s1 this other it1)
          })
     else Some (Inr (), s)
   }"

declare copy_loop.simps [code]

text \<open>\<^verbatim>\<open>list(const list &other)\<close>: the statements of the default constructor, then the
  loop.\<close>

definition list_copy_ctor :: "'a state \<Rightarrow> nat \<Rightarrow> ((error + nat) \<times> 'a state) option" where
  "list_copy_ctor s other = do {
     (this, s1) \<leftarrow> list_ctor s;
     it \<leftarrow> cbegin s1 other;
     (r, s2) \<leftarrow> copy_loop s1 this other it;
     Some (case r of Inl err \<Rightarrow> Inl err | Inr _ \<Rightarrow> Inr this, s2)
   }"

text \<open>\<^verbatim>\<open>list &operator=(const list &other)\<close>.\<close>

definition assign :: "'a state \<Rightarrow> nat \<Rightarrow> nat \<Rightarrow> ((error + nat) \<times> 'a state) option" where
  "assign s this other =
     (if this = other then Some (Inr this, s)
      else do {
        (c, s1) \<leftarrow> clear s this;
        (case c of Inl err \<Rightarrow> Some (Inl err, s1)
         | Inr _ \<Rightarrow> do {
             it \<leftarrow> cbegin s1 other;
             (r, s2) \<leftarrow> copy_loop s1 this other it;
             Some (case r of Inl err \<Rightarrow> Inl err | Inr _ \<Rightarrow> Inr this, s2)
           })
      })"

subsection \<open>The list algorithms\<close>

text \<open>\<^verbatim>\<open>sort()\<close>. The buffer \<^verbatim>\<open>arr\<close> is a list of \<^verbatim>\<open>n\<close> slots, \<open>None\<close> while a slot is raw
  memory; an access outside the buffer has no defined result. The sort routine of
  \<^verbatim>\<open>algorithm.hpp\<close> is not part of the sources: it is the parameter \<open>ext_sort\<close>, which
  receives the comparator and the buffer's values and returns the buffer's new values.\<close>

partial_function (option) sort_fill ::
  "'a state \<Rightarrow> nat \<Rightarrow> iterator \<Rightarrow> 'a option list \<Rightarrow> nat \<Rightarrow> (error + 'a option list) option" where
  "sort_fill s this it arr i = do {
     e \<leftarrow> end_list s this;
     if iter_neq it e then
       (case iter_deref s it of None \<Rightarrow> None
        | Some (Inl err) \<Rightarrow> Some (Inl err)
        | Some (Inr r) \<Rightarrow> do {
            v \<leftarrow> read_data s r;
            arr1 \<leftarrow> (if i < length arr then Some (arr[i := Some v]) else None);
            (case iter_preinc s it of None \<Rightarrow> None
             | Some (Inl err, _) \<Rightarrow> Some (Inl err)
             | Some (Inr _, it1) \<Rightarrow> sort_fill s this it1 arr1 (i + 1))
          })
     else Some (Inr arr)
   }"

declare sort_fill.simps [code]

partial_function (option) sort_store ::
  "'a state \<Rightarrow> nat \<Rightarrow> iterator \<Rightarrow> 'a option list \<Rightarrow> nat \<Rightarrow> ((error + unit) \<times> 'a state) option" where
  "sort_store s this it arr i = do {
     e \<leftarrow> end_list s this;
     if iter_neq it e then
       (case iter_deref s it of None \<Rightarrow> None
        | Some (Inl err) \<Rightarrow> Some (Inl err, s)
        | Some (Inr r) \<Rightarrow> do {
            v \<leftarrow> (if i < length arr then arr ! i else None);
            s1 \<leftarrow> write_data s r v;
            let arr1 = arr[i := None];
            (case iter_preinc s1 it of None \<Rightarrow> None
             | Some (Inl err, _) \<Rightarrow> Some (Inl err, s1)
             | Some (Inr _, it1) \<Rightarrow> sort_store s1 this it1 arr1 (i + 1))
          })
     else Some (Inr (), s)
   }"

declare sort_store.simps [code]

definition sort_list ::
  "(('a::ord \<Rightarrow> 'a \<Rightarrow> bool) \<Rightarrow> 'a list \<Rightarrow> 'a list) \<Rightarrow> 'a state \<Rightarrow> nat
     \<Rightarrow> ((error + unit) \<times> 'a state) option" where
  "sort_list ext_sort s this = do {
     sz \<leftarrow> size_list s this;
     if sz \<le> 1 then Some (Inr (), s)
     else do {
       n \<leftarrow> size_list s this;
       let arr = replicate n None;
       it \<leftarrow> begin_list s this;
       r \<leftarrow> sort_fill s this it arr 0;
       (case r of Inl err \<Rightarrow> Some (Inl err, s)
        | Inr arr1 \<Rightarrow> do {
            vs \<leftarrow> those arr1;
            let arr2 = map Some (ext_sort (\<lambda>a b. a < b) vs);
            it2 \<leftarrow> begin_list s this;
            sort_store s this it2 arr2 0
          })
     }
   }"

text \<open>\<^verbatim>\<open>merge(list &other)\<close>: the two loops, on raw node pointers.\<close>

partial_function (option) merge_loop1 ::
  "'a::ord state \<Rightarrow> nat \<Rightarrow> nat \<Rightarrow> nat option \<Rightarrow> nat option \<Rightarrow> (nat option \<times> 'a state) option" where
  "merge_loop1 s this other this_ptr other_ptr = do {
     L \<leftarrow> obj_at s this;
     R \<leftarrow> obj_at s other;
     if this_ptr \<noteq> Some (tail L) \<and> other_ptr \<noteq> Some (tail R) then do {
       on \<leftarrow> deref s other_ptr;
       tn \<leftarrow> deref s this_ptr;
       ov \<leftarrow> data on;
       tv \<leftarrow> data tn;
       if ov < tv then do {
         let next_other = next on;
         (_, s1) \<leftarrow> erase_node s other other_ptr;
         (_, s2) \<leftarrow> insert_node s1 this this_ptr other_ptr;
         merge_loop1 s2 this other this_ptr next_other
       }
       else merge_loop1 s this other (next tn) other_ptr
     }
     else Some (other_ptr, s)
   }"

declare merge_loop1.simps [code]

partial_function (option) merge_loop2 ::
  "'a state \<Rightarrow> nat \<Rightarrow> nat \<Rightarrow> nat option \<Rightarrow> 'a state option" where
  "merge_loop2 s this other other_ptr = do {
     R \<leftarrow> obj_at s other;
     if other_ptr \<noteq> Some (tail R) then do {
       on \<leftarrow> deref s other_ptr;
       let next_other = next on;
       (_, s1) \<leftarrow> erase_node s other other_ptr;
       L \<leftarrow> obj_at s1 this;
       (_, s2) \<leftarrow> insert_node s1 this (Some (tail L)) other_ptr;
       merge_loop2 s2 this other next_other
     }
     else Some s
   }"

declare merge_loop2.simps [code]

definition merge :: "'a::ord state \<Rightarrow> nat \<Rightarrow> nat \<Rightarrow> 'a state option" where
  "merge s this other =
     (if this = other then Some s
      else do {
        L \<leftarrow> obj_at s this;
        hn \<leftarrow> node_at s (head L);
        R \<leftarrow> obj_at s other;
        rn \<leftarrow> node_at s (head R);
        (other_ptr, s1) \<leftarrow> merge_loop1 s this other (next hn) (next rn);
        merge_loop2 s1 this other other_ptr
      })"

text \<open>\<^verbatim>\<open>reverse()\<close>.\<close>

partial_function (option) reverse_loop :: "'a state \<Rightarrow> nat option \<Rightarrow> 'a state option" where
  "reverse_loop s cur =
     (case cur of None \<Rightarrow> Some s
      | Some c \<Rightarrow> do {
          n \<leftarrow> node_at s c;
          let temp = next n;
          s1 \<leftarrow> set_next s cur (prev n);
          s2 \<leftarrow> set_prev s1 cur temp;
          reverse_loop s2 temp
        })"

declare reverse_loop.simps [code]

definition reverse :: "'a state \<Rightarrow> nat \<Rightarrow> 'a state option" where
  "reverse s this = do {
     sz \<leftarrow> size_list s this;
     if sz \<le> 1 then Some s
     else do {
       L \<leftarrow> obj_at s this;
       s1 \<leftarrow> reverse_loop s (Some (head L));
       L1 \<leftarrow> obj_at s1 this;
       let temp = head L1;
       Some (put_obj s1 this (L1\<lparr>head := tail L1, tail := temp\<rparr>))
     }
   }"

text \<open>\<^verbatim>\<open>unique()\<close>; \<^verbatim>\<open>operator==\<close> of the element type is equality of values.\<close>

partial_function (option) unique_loop ::
  "'a state \<Rightarrow> nat \<Rightarrow> iterator \<Rightarrow> iterator \<Rightarrow> ((error + unit) \<times> 'a state) option" where
  "unique_loop s this it next_it = do {
     e \<leftarrow> end_list s this;
     if iter_neq next_it e then
       (case iter_deref s it of None \<Rightarrow> None
        | Some (Inl err) \<Rightarrow> Some (Inl err, s)
        | Some (Inr a) \<Rightarrow>
           (case iter_deref s next_it of None \<Rightarrow> None
            | Some (Inl err) \<Rightarrow> Some (Inl err, s)
            | Some (Inr b) \<Rightarrow> do {
                x \<leftarrow> read_data s a;
                y \<leftarrow> read_data s b;
                if x = y then
                  (case erase_iter s this next_it of None \<Rightarrow> None
                   | Some (Inl err, s1) \<Rightarrow> Some (Inl err, s1)
                   | Some (Inr it2, s1) \<Rightarrow> unique_loop s1 this it it2)
                else
                  (case iter_preinc s it of None \<Rightarrow> None
                   | Some (Inl err, _) \<Rightarrow> Some (Inl err, s)
                   | Some (Inr _, it1) \<Rightarrow>
                      (case iter_preinc s next_it of None \<Rightarrow> None
                       | Some (Inl err, _) \<Rightarrow> Some (Inl err, s)
                       | Some (Inr _, next_it1) \<Rightarrow> unique_loop s this it1 next_it1))
              }))
     else Some (Inr (), s)
   }"

declare unique_loop.simps [code]

definition unique :: "'a state \<Rightarrow> nat \<Rightarrow> ((error + unit) \<times> 'a state) option" where
  "unique s this = do {
     sz \<leftarrow> size_list s this;
     if sz \<le> 1 then Some (Inr (), s)
     else do {
       it \<leftarrow> begin_list s this;
       let next_it = it;
       (case iter_preinc s next_it of None \<Rightarrow> None
        | Some (Inl err, _) \<Rightarrow> Some (Inl err, s)
        | Some (Inr _, next_it1) \<Rightarrow> unique_loop s this it next_it1)
     }
   }"

subsection \<open>The abstraction: chains of nodes\<close>

definition links :: "'a state \<Rightarrow> nat \<Rightarrow> nat option \<Rightarrow> nat option \<Rightarrow> bool" where
  "links s a p q = (case node_at s a of None \<Rightarrow> False | Some n \<Rightarrow> prev n = p \<and> next n = q)"

definition hd_or :: "nat list \<Rightarrow> nat option \<Rightarrow> nat option" where
  "hd_or as q = (case as of [] \<Rightarrow> q | b # _ \<Rightarrow> Some b)"

definition last_or :: "nat list \<Rightarrow> nat option \<Rightarrow> nat option" where
  "last_or as p = (if as = [] then p else Some (last as))"

fun dseg :: "'a state \<Rightarrow> nat option \<Rightarrow> nat list \<Rightarrow> nat option \<Rightarrow> bool" where
  "dseg s p [] q = True"
| "dseg s p (a # as) q = (links s a p (hd_or as q) \<and> dseg s (Some a) as q)"

text \<open>The cells of a container, from the head sentinel to the tail sentinel.\<close>

definition cells :: "list_rep \<Rightarrow> nat list \<Rightarrow> nat list" where
  "cells L as = head L # as @ [tail L]"

text \<open>The container invariant. \<open>repr s l as xs\<close>: in state \<open>s\<close> the container at \<open>l\<close> is the
  chain of the head sentinel, the nodes \<open>as\<close> and the tail sentinel; the chain is a
  consistent doubly-linked path (\<open>dseg\<close>: each cell's \<^verbatim>\<open>prev\<close> is the cell before it and
  its \<^verbatim>\<open>next\<close> the cell after it, the head's \<^verbatim>\<open>prev\<close> and the tail's \<^verbatim>\<open>next\<close> are null);
  \<^verbatim>\<open>list_size\<close> is the number of nodes between the sentinels; and these nodes hold the
  values \<open>xs\<close>, in this order.\<close>

definition repr :: "'a state \<Rightarrow> nat \<Rightarrow> nat list \<Rightarrow> 'a list \<Rightarrow> bool" where
  "repr s l as xs =
     (case obj_at s l of None \<Rightarrow> False
      | Some L \<Rightarrow> dseg s None (cells L as) None \<and> list_size L = length as
                 \<and> map (read_data s) as = map Some xs)"

text \<open>What a call on the container at \<open>l\<close> may touch: \<open>frame s s' l A\<close> says that from \<open>s\<close>
  to \<open>s'\<close> no other container object changed, no cell was lost from the heap's address
  range, and every old cell outside \<open>A\<close> is as it was.\<close>

definition frame :: "'a state \<Rightarrow> 'a state \<Rightarrow> nat \<Rightarrow> nat set \<Rightarrow> bool" where
  "frame s s' l A =
     (length (objs s') = length (objs s) \<and> (\<forall>k. k \<noteq> l \<longrightarrow> obj_at s' k = obj_at s k)
      \<and> length (nodes s) \<le> length (nodes s')
      \<and> (\<forall>b. b \<notin> A \<longrightarrow> b < length (nodes s) \<longrightarrow> node_at s' b = node_at s b))"

definition upd_ok :: "'a state \<Rightarrow> nat \<Rightarrow> nat list \<Rightarrow> 'a state \<Rightarrow> nat list \<Rightarrow> bool" where
  "upd_ok s l as s' as' =
     (\<exists>L L'. obj_at s l = Some L \<and> obj_at s' l = Some L' \<and> frame s s' l (set (cells L as))
        \<and> (\<forall>b\<in>set (cells L' as'). b < length (nodes s) \<longrightarrow> b \<in> set (cells L as)))"

definition links_only :: "'a state \<Rightarrow> 'a state \<Rightarrow> nat set \<Rightarrow> bool" where
  "links_only s s' A =
     (length (nodes s') = length (nodes s) \<and> (\<forall>b. b \<notin> A \<longrightarrow> node_at s' b = node_at s b)
      \<and> (\<forall>b. read_data s' b = read_data s b) \<and> (\<forall>b. (node_at s' b = None) = (node_at s b = None)))"

definition size_pred :: "nat \<Rightarrow> nat" where
  "size_pred n = (if n = 0 then 2 ^ 64 - 1 else n - 1)"

subsection \<open>What the list algorithms compute\<close>

text \<open>What \<^verbatim>\<open>unique()\<close> leaves of a sequence of nodes paired with their values:
  \<open>keep_first x zs\<close> is what is left of \<open>zs\<close> when the retained element before it holds
  \<open>x\<close>.\<close>

fun keep_first :: "'a \<Rightarrow> (nat \<times> 'a) list \<Rightarrow> (nat \<times> 'a) list" where
  "keep_first x [] = []"
| "keep_first x ((b, y) # zs) = (if x = y then keep_first x zs else (b, y) # keep_first y zs)"

fun uniq_pairs :: "(nat \<times> 'a) list \<Rightarrow> (nat \<times> 'a) list" where
  "uniq_pairs [] = []"
| "uniq_pairs ((a, x) # zs) = (a, x) # keep_first x zs"

subsection \<open>Where an iterator stands\<close>

text \<open>The positions the iterator checks distinguish, in terms of \<^verbatim>\<open>begin()\<close> and \<^verbatim>\<open>end()\<close>: an unset cursor
  (default-constructed, \<^verbatim>\<open>current == nullptr\<close>), a cursor equal to \<^verbatim>\<open>end()\<close> or to \<^verbatim>\<open>begin()\<close> of its
  container, and a cursor on one of the two sentinels.\<close>

definition unset :: "iterator \<Rightarrow> bool" where
  "unset it = (current it = None)"

definition at_end :: "'a state \<Rightarrow> iterator \<Rightarrow> bool" where
  "at_end s it =
     (case container it of None \<Rightarrow> False
      | Some c \<Rightarrow> (case end_list s c of None \<Rightarrow> False | Some e \<Rightarrow> iter_eq it e))"

definition at_begin :: "'a state \<Rightarrow> iterator \<Rightarrow> bool" where
  "at_begin s it =
     (case container it of None \<Rightarrow> False
      | Some c \<Rightarrow> (case begin_list s c of None \<Rightarrow> False | Some b \<Rightarrow> iter_eq it b))"

definition on_sentinel :: "'a state \<Rightarrow> iterator \<Rightarrow> bool" where
  "on_sentinel s it =
     (case deref_list s (container it) of None \<Rightarrow> False
      | Some L \<Rightarrow> current it = Some (head L) \<or> current it = Some (tail L))"

subsection \<open>Example states\<close>

text \<open>One empty container at object address 0, as \<^verbatim>\<open>list<int>()\<close> builds it in the empty heap,
  and a default-constructed iterator.\<close>

definition ex_empty :: "int state" where
  "ex_empty = \<lparr>nodes = [Some \<lparr>data = None, prev = None, next = Some 1\<rparr>,
                         Some \<lparr>data = None, prev = Some 0, next = None\<rparr>],
               objs = [\<lparr>head = 0, tail = 1, list_size = 0\<rparr>]\<rparr>"

definition ex_unset :: iterator where
  "ex_unset = \<lparr>current = None, container = None\<rparr>"

text \<open>The container \<open>[10, 20, 30]\<close> at object address 0, as three calls of \<^verbatim>\<open>push_back\<close> on
  the empty container build it.\<close>

definition ex_three :: "int state" where
  "ex_three = \<lparr>nodes = [Some \<lparr>data = None, prev = None, next = Some 2\<rparr>,
                         Some \<lparr>data = None, prev = Some 4, next = None\<rparr>,
                         Some \<lparr>data = Some 10, prev = Some 0, next = Some 3\<rparr>,
                         Some \<lparr>data = Some 20, prev = Some 2, next = Some 4\<rparr>,
                         Some \<lparr>data = Some 30, prev = Some 3, next = Some 1\<rparr>],
               objs = [\<lparr>head = 0, tail = 1, list_size = 3\<rparr>]\<rparr>"

text \<open>The container \<open>[1, 1, 2, 1, 1]\<close> at object address 0, built in the same way.\<close>

definition ex_runs :: "int state" where
  "ex_runs = \<lparr>nodes = [Some \<lparr>data = None, prev = None, next = Some 2\<rparr>,
                        Some \<lparr>data = None, prev = Some 6, next = None\<rparr>,
                        Some \<lparr>data = Some 1, prev = Some 0, next = Some 3\<rparr>,
                        Some \<lparr>data = Some 1, prev = Some 2, next = Some 4\<rparr>,
                        Some \<lparr>data = Some 2, prev = Some 3, next = Some 5\<rparr>,
                        Some \<lparr>data = Some 1, prev = Some 4, next = Some 6\<rparr>,
                        Some \<lparr>data = Some 1, prev = Some 5, next = Some 1\<rparr>],
              objs = [\<lparr>head = 0, tail = 1, list_size = 5\<rparr>]\<rparr>"

subsection \<open>Sorting through the buffer\<close>

text \<open>\<open>values_only s s' A\<close>: from \<open>s\<close> to \<open>s'\<close> nothing was allocated or freed, no container
  object and no link changed, and only nodes in \<open>A\<close> may hold another value.\<close>

definition values_only :: "'a state \<Rightarrow> 'a state \<Rightarrow> nat set \<Rightarrow> bool" where
  "values_only s s' A =
     (length (nodes s') = length (nodes s) \<and> objs s' = objs s
      \<and> (\<forall>b. b \<notin> A \<longrightarrow> node_at s' b = node_at s b)
      \<and> (\<forall>b. map_option prev (node_at s' b) = map_option prev (node_at s b)
             \<and> map_option next (node_at s' b) = map_option next (node_at s b)))"

definition sort_ok :: "(('a::linorder \<Rightarrow> 'a \<Rightarrow> bool) \<Rightarrow> 'a list \<Rightarrow> 'a list) \<Rightarrow> bool" where
  "sort_ok ext_sort = (\<forall>zs. sorted (ext_sort (\<lambda>a b. a < b) zs) \<and> mset (ext_sort (\<lambda>a b. a < b) zs) = mset zs)"

text \<open>The container \<open>[5, 1, 4, 2, 3]\<close> at object address 0.\<close>

definition ex_five :: "int state" where
  "ex_five = \<lparr>nodes = [Some \<lparr>data = None, prev = None, next = Some 2\<rparr>,
                        Some \<lparr>data = None, prev = Some 6, next = None\<rparr>,
                        Some \<lparr>data = Some 5, prev = Some 0, next = Some 3\<rparr>,
                        Some \<lparr>data = Some 1, prev = Some 2, next = Some 4\<rparr>,
                        Some \<lparr>data = Some 4, prev = Some 3, next = Some 5\<rparr>,
                        Some \<lparr>data = Some 2, prev = Some 4, next = Some 6\<rparr>,
                        Some \<lparr>data = Some 3, prev = Some 5, next = Some 1\<rparr>],
              objs = [\<lparr>head = 0, tail = 1, list_size = 5\<rparr>]\<rparr>"

subsection \<open>Two containers in one heap\<close>

text \<open>\<open>sep s l as k bs\<close>: the containers at \<open>l\<close> and \<open>k\<close>, with nodes \<open>as\<close> and \<open>bs\<close>, share no
  cell, sentinels included.\<close>

definition sep :: "'a state \<Rightarrow> nat \<Rightarrow> nat list \<Rightarrow> nat \<Rightarrow> nat list \<Rightarrow> bool" where
  "sep s l as k bs =
     (case obj_at s l of None \<Rightarrow> False
      | Some L \<Rightarrow> (case obj_at s k of None \<Rightarrow> False
                  | Some K \<Rightarrow> set (cells L as) \<inter> set (cells K bs) = {}))"

text \<open>The state of the two loops of \<^verbatim>\<open>merge\<close> and what they establish. \<open>mstate\<close>: the
  containers at \<open>l\<close> and \<open>k\<close> are two chains with nodes \<open>as\<close> and \<open>rb\<close> that share no cell.
  \<open>mdone\<close>: afterwards the first chain has the nodes \<open>as'\<close>, the second none, the sizes
  are adjusted, and nothing else changed.\<close>

definition mstate ::
  "'a state \<Rightarrow> nat \<Rightarrow> nat \<Rightarrow> list_rep \<Rightarrow> list_rep \<Rightarrow> nat list \<Rightarrow> nat list \<Rightarrow> bool" where
  "mstate s l k L K as rb =
     (obj_at s l = Some L \<and> obj_at s k = Some K \<and> l \<noteq> k \<and> dseg s None (cells L as) None
      \<and> dseg s None (cells K rb) None \<and> set (cells L as) \<inter> set (cells K rb) = {}
      \<and> list_size K = length rb)"

definition mdone ::
  "'a state \<Rightarrow> 'a state \<Rightarrow> nat \<Rightarrow> nat \<Rightarrow> list_rep \<Rightarrow> list_rep \<Rightarrow> nat list \<Rightarrow> nat list \<Rightarrow> nat list
     \<Rightarrow> bool" where
  "mdone s s' l k L K as rb as' =
     (dseg s' None (cells L as') None \<and> dseg s' None (cells K []) None
      \<and> obj_at s' l = Some (L\<lparr>list_size := list_size L + length rb\<rparr>)
      \<and> obj_at s' k = Some (K\<lparr>list_size := 0\<rparr>)
      \<and> links_only s s' (set (cells L as) \<union> set (cells K rb))
      \<and> length (objs s') = length (objs s)
      \<and> (\<forall>j. j \<noteq> l \<and> j \<noteq> k \<longrightarrow> obj_at s' j = obj_at s j))"

text \<open>What \<^verbatim>\<open>merge\<close> computes, on nodes paired with their values: the node of the second
  sequence goes first only when its value is strictly less.\<close>

fun merge_pairs :: "(nat \<times> 'a::ord) list \<Rightarrow> (nat \<times> 'a) list \<Rightarrow> (nat \<times> 'a) list" where
  "merge_pairs [] zb = zb"
| "merge_pairs za [] = za"
| "merge_pairs ((a, x) # za) ((b, y) # zb) =
     (if y < x then (b, y) # merge_pairs ((a, x) # za) zb
      else (a, x) # merge_pairs za ((b, y) # zb))"

text \<open>The containers \<open>[1, 3, 3, 5]\<close> at object address 0 and \<open>[2, 3, 4]\<close> at object
  address 1, as two calls of \<^verbatim>\<open>list<int>()\<close> and seven of \<^verbatim>\<open>push_back\<close> build them in the
  empty heap.\<close>

definition ex_two :: "int state" where
  "ex_two = \<lparr>nodes = [Some \<lparr>data = None, prev = None, next = Some 4\<rparr>,
                       Some \<lparr>data = None, prev = Some 7, next = None\<rparr>,
                       Some \<lparr>data = None, prev = None, next = Some 8\<rparr>,
                       Some \<lparr>data = None, prev = Some 10, next = None\<rparr>,
                       Some \<lparr>data = Some 1, prev = Some 0, next = Some 5\<rparr>,
                       Some \<lparr>data = Some 3, prev = Some 4, next = Some 6\<rparr>,
                       Some \<lparr>data = Some 3, prev = Some 5, next = Some 7\<rparr>,
                       Some \<lparr>data = Some 5, prev = Some 6, next = Some 1\<rparr>,
                       Some \<lparr>data = Some 2, prev = Some 2, next = Some 9\<rparr>,
                       Some \<lparr>data = Some 3, prev = Some 8, next = Some 10\<rparr>,
                       Some \<lparr>data = Some 4, prev = Some 9, next = Some 3\<rparr>],
             objs = [\<lparr>head = 0, tail = 1, list_size = 4\<rparr>,
                     \<lparr>head = 2, tail = 3, list_size = 3\<rparr>]\<rparr>"

subsection \<open>Programs: sequences of calls on the containers of a heap\<close>

text \<open>The nodes that following \<^verbatim>\<open>next\<close> from \<open>p\<close> reaches before the cell \<open>t\<close>.\<close>

partial_function (option) walk :: "'a state \<Rightarrow> nat option \<Rightarrow> nat \<Rightarrow> nat list option" where
  "walk s p t =
     (case p of None \<Rightarrow> None
      | Some a \<Rightarrow> if a = t then Some []
                  else do { n \<leftarrow> node_at s a; r \<leftarrow> walk s (next n) t; Some (a # r) })"

declare walk.simps [code]

definition reachable :: "'a state \<Rightarrow> nat \<Rightarrow> nat list option" where
  "reachable s l = do { L \<leftarrow> obj_at s l; hn \<leftarrow> node_at s (head L); walk s (next hn) (tail L) }"

text \<open>The container invariant of one container, stated on what the code can observe:
  following \<^verbatim>\<open>next\<close> from the head sentinel reaches the tail sentinel, \<^verbatim>\<open>size()\<close> is the
  number of nodes passed on the way, each of these nodes holds a value, and the head
  sentinel, these nodes and the tail sentinel form a consistent doubly-linked path.\<close>

definition invariant :: "'a state \<Rightarrow> nat \<Rightarrow> bool" where
  "invariant s l =
     (case obj_at s l of None \<Rightarrow> False
      | Some L \<Rightarrow> (case reachable s l of None \<Rightarrow> False
                  | Some as \<Rightarrow> size_list s l = Some (length as)
                               \<and> list_all (\<lambda>a. read_data s a \<noteq> None) as
                               \<and> dseg s None (cells L as) None))"

text \<open>A heap of valid containers: \<open>wf_heap s M\<close> holds when every container object \<open>l\<close> of \<open>s\<close> is
  valid with the nodes \<open>fst (M ! l)\<close> holding the values \<open>snd (M ! l)\<close>, and no two
  containers share a cell.\<close>

definition wf_heap :: "'a state \<Rightarrow> (nat list \<times> 'a list) list \<Rightarrow> bool" where
  "wf_heap s M =
     (length M = length (objs s)
      \<and> (\<forall>l<length M. repr s l (fst (M ! l)) (snd (M ! l)))
      \<and> (\<forall>i<length M. \<forall>j<length M. i \<noteq> j \<longrightarrow> sep s i (fst (M ! i)) j (fst (M ! j))))"

text \<open>The calls of a client program. A position is given the way a client obtains it:
  \<open>Insert_at c n v\<close> is \<^verbatim>\<open>it = c.begin(); ++it\<close> (\<open>n\<close> times)\<^verbatim>\<open>; insert(it, v)\<close> on the target
  container, and \<open>Erase_at c n\<close> likewise, so that a position may belong to the target or
  to another container, and may be \<^verbatim>\<open>end()\<close>.\<close>

datatype 'a op = Push_back 'a | Push_front 'a | Pop_back | Pop_front
  | Insert_at nat nat 'a | Erase_at nat nat | Clear | Merge nat | Reverse | Sort | Unique

fun advance :: "'a state \<Rightarrow> iterator \<Rightarrow> nat \<Rightarrow> (error + iterator) option" where
  "advance s it 0 = Some (Inr it)"
| "advance s it (Suc n) =
     (case iter_preinc s it of None \<Rightarrow> None
      | Some (Inl e, _) \<Rightarrow> Some (Inl e)
      | Some (Inr _, it1) \<Rightarrow> advance s it1 n)"

definition discard :: "((error + 'r) \<times> 'a state) option \<Rightarrow> ((error + unit) \<times> 'a state) option" where
  "discard m = map_option (\<lambda>(r, s). (case r of Inl e \<Rightarrow> Inl e | Inr _ \<Rightarrow> Inr (), s)) m"

definition exec ::
  "(('a::ord \<Rightarrow> 'a \<Rightarrow> bool) \<Rightarrow> 'a list \<Rightarrow> 'a list) \<Rightarrow> 'a state \<Rightarrow> nat \<Rightarrow> 'a op
     \<Rightarrow> ((error + unit) \<times> 'a state) option" where
  "exec ext_sort s l c =
     (case c of
        Push_back v \<Rightarrow> map_option (Pair (Inr ())) (push_back s l v)
      | Push_front v \<Rightarrow> map_option (Pair (Inr ())) (push_front s l v)
      | Pop_back \<Rightarrow> pop_back s l
      | Pop_front \<Rightarrow> pop_front s l
      | Insert_at k n v \<Rightarrow> do {
          b \<leftarrow> begin_list s k;
          r \<leftarrow> advance s b n;
          (case r of Inl e \<Rightarrow> Some (Inl e, s) | Inr pos \<Rightarrow> discard (insert_iter s l pos v))
        }
      | Erase_at k n \<Rightarrow> do {
          b \<leftarrow> begin_list s k;
          r \<leftarrow> advance s b n;
          (case r of Inl e \<Rightarrow> Some (Inl e, s) | Inr pos \<Rightarrow> discard (erase_iter s l pos))
        }
      | Clear \<Rightarrow> clear s l
      | Merge k \<Rightarrow> map_option (Pair (Inr ())) (merge s l k)
      | Reverse \<Rightarrow> map_option (Pair (Inr ())) (reverse s l)
      | Sort \<Rightarrow> sort_list ext_sort s l
      | Unique \<Rightarrow> unique s l)"

text \<open>A program runs its calls in order; a raised error is caught and the program goes
  on in the state of the throw.\<close>

fun run ::
  "(('a::ord \<Rightarrow> 'a \<Rightarrow> bool) \<Rightarrow> 'a list \<Rightarrow> 'a list) \<Rightarrow> 'a state \<Rightarrow> (nat \<times> 'a op) list
     \<Rightarrow> 'a state option" where
  "run ext_sort s [] = Some s"
| "run ext_sort s ((l, c) # cs) =
     (case exec ext_sort s l c of None \<Rightarrow> None | Some (_, s1) \<Rightarrow> run ext_sort s1 cs)"

text \<open>The containers a call names exist: \<open>op_ok n (l, c)\<close> for a heap of \<open>n\<close> containers.\<close>

fun op_ok :: "nat \<Rightarrow> nat \<times> 'a op \<Rightarrow> bool" where
  "op_ok n (l, Merge k) = (l < n \<and> k < n)"
| "op_ok n (l, Insert_at k i v) = (l < n \<and> k < n)"
| "op_ok n (l, Erase_at k i) = (l < n \<and> k < n)"
| "op_ok n (l, c) = (l < n)"

text \<open>The containers a call may change.\<close>

fun touched :: "nat \<times> 'a op \<Rightarrow> nat set" where
  "touched (l, Merge k) = {l, k}"
| "touched (l, c) = {l}"

text \<open>A program that uses every operation, on the two containers of \<open>ex_two\<close>.\<close>

definition ex_program :: "(nat \<times> int op) list" where
  "ex_program =
     [(0, Push_back 9), (0, Pop_front), (1, Push_front 0), (0, Merge 1), (0, Unique),
      (0, Reverse), (0, Sort), (0, Insert_at 0 1 7), (0, Erase_at 0 0), (1, Pop_back),
      (1, Insert_at 0 0 4), (0, Erase_at 0 9), (1, Push_back 8), (1, Clear)]"

text \<open>A position just taken from \<^verbatim>\<open>begin()\<close> by increments stands in the container it
  names. An iterator kept across \<^verbatim>\<open>merge\<close> need not: \<^verbatim>\<open>it = B.begin(); A.merge(B); B.push_back(5); B.erase(it)\<close>
  on \<open>ex_two\<close>, with \<open>A\<close> at 0 and \<open>B\<close> at 1. The node of \<open>it\<close> has gone to \<open>A\<close>, but
  \<open>it\<close> still names \<open>B\<close>, which is not empty and whose \<^verbatim>\<open>end()\<close> is another cell, so
  \<^verbatim>\<open>erase\<close> raises nothing: it unlinks the node from \<open>A\<close> and decrements the size of \<open>B\<close>.\<close>

definition ex_moved :: "((error + iterator) \<times> int state) option" where
  "ex_moved = do {
     it \<leftarrow> begin_list ex_two 1;
     s1 \<leftarrow> merge ex_two 0 1;
     s2 \<leftarrow> push_back s1 1 5;
     erase_iter s2 1 it
   }"

text \<open>What the code can observe afterwards: the result of \<^verbatim>\<open>erase\<close>, then for \<open>A\<close> and for
  \<open>B\<close> the value of \<^verbatim>\<open>size()\<close>, the nodes between the sentinels and whether the invariant
  holds.\<close>

definition ex_moved_view ::
  "((error + iterator) \<times> (nat option \<times> nat list option \<times> bool)
      \<times> (nat option \<times> nat list option \<times> bool)) option" where
  "ex_moved_view = do {
     (r, s) \<leftarrow> ex_moved;
     Some (r, (size_list s 0, reachable s 0, invariant s 0),
              (size_list s 1, reachable s 1, invariant s 1))
   }"

text \<open>A program leaves the container at \<open>c\<close> alone when no call of it is made on \<open>c\<close> and no
  \<^verbatim>\<open>merge\<close> takes \<open>c\<close> as its argument.\<close>

definition untouched :: "nat \<Rightarrow> (nat \<times> 'a op) list \<Rightarrow> bool" where
  "untouched c ops = list_all (\<lambda>x. c \<notin> touched x) ops"

text \<open>The containers \<open>[1, 2, 3]\<close> at object address 0 and \<open>[7]\<close> at object address 1, as two
  default constructions and four calls of \<^verbatim>\<open>push_back\<close> build them in the empty heap.\<close>

definition ex_pair :: "int state" where
  "ex_pair = \<lparr>nodes = [Some \<lparr>data = None, prev = None, next = Some 4\<rparr>,
                        Some \<lparr>data = None, prev = Some 6, next = None\<rparr>,
                        Some \<lparr>data = None, prev = None, next = Some 7\<rparr>,
                        Some \<lparr>data = None, prev = Some 7, next = None\<rparr>,
                        Some \<lparr>data = Some 1, prev = Some 0, next = Some 5\<rparr>,
                        Some \<lparr>data = Some 2, prev = Some 4, next = Some 6\<rparr>,
                        Some \<lparr>data = Some 3, prev = Some 5, next = Some 1\<rparr>,
                        Some \<lparr>data = Some 7, prev = Some 2, next = Some 3\<rparr>],
              objs = [\<lparr>head = 0, tail = 1, list_size = 3\<rparr>,
                      \<lparr>head = 2, tail = 3, list_size = 1\<rparr>]\<rparr>"

text \<open>A position that names a container without standing in it. After
  \<^verbatim>\<open>it = B.begin(); A.merge(B); B.push_back(5)\<close> on \<open>ex_two\<close>, with \<open>A\<close> at 0 and \<open>B\<close> at 1,
  the iterator \<open>it\<close> names \<open>B\<close> and stands on a node that \<^verbatim>\<open>merge\<close> has moved to \<open>A\<close>.\<close>

definition ex_kept :: "(iterator \<times> int state) option" where
  "ex_kept = do {
     it \<leftarrow> begin_list ex_two 1;
     s1 \<leftarrow> merge ex_two 0 1;
     s2 \<leftarrow> push_back s1 1 5;
     Some (it, s2)
   }"

text \<open>\<^verbatim>\<open>B.erase(it)\<close> in that state, and what the code can observe. Before the call: whether
  \<open>it\<close> names \<open>B\<close>, whether it equals \<^verbatim>\<open>B.end()\<close>, and whether \<open>B\<close> is the valid container
  \<open>[5]\<close> on node 11. Then the result of the call. After the call: \<^verbatim>\<open>B.size()\<close>, the nodes
  between the sentinels of \<open>B\<close> and their values, and the nodes between the sentinels
  of \<open>A\<close>.\<close>

definition ex_kept_erase ::
  "((bool \<times> bool \<times> bool) \<times> (error + iterator)
      \<times> (nat option \<times> nat list option \<times> int option list option) \<times> nat list option) option" where
  "ex_kept_erase = do {
     (it, s) \<leftarrow> ex_kept;
     e \<leftarrow> end_list s 1;
     (r, s') \<leftarrow> erase_iter s 1 it;
     Some ((container it = Some 1, iter_eq it e, repr s 1 [11] [5]), r,
           (size_list s' 1, reachable s' 1, map_option (map (read_data s')) (reachable s' 1)),
           reachable s' 0)
   }"

section \<open>Properties of chains and of the primitives\<close>

lemma hd_or_simps [simp]: "hd_or [] q = q" "hd_or (a # as) q = Some a"
  by (simp_all add: hd_or_def)

lemma hd_or_append [simp]: "hd_or (xs @ ys) q = hd_or xs (hd_or ys q)"
  by (cases xs) simp_all

lemma last_or_simps [simp]: "last_or [] p = p" "last_or (a # as) p = last_or as (Some a)"
  by (simp_all add: last_or_def)

lemma last_or_append [simp]: "last_or (xs @ ys) p = last_or ys (last_or xs p)"
  by (induction xs arbitrary: p) simp_all

lemma dseg_append: "dseg s p (xs @ ys) q = (dseg s p xs (hd_or ys q) \<and> dseg s (last_or xs p) ys q)"
  by (induction xs arbitrary: p) simp_all

lemma node_at_put_node [simp]:
  "node_at (put_node s a c) b = (if b = a \<and> a < length (nodes s) then c else node_at s b)"
  by (auto simp: node_at_def put_node_def)

lemma obj_at_put_node [simp]: "obj_at (put_node s a c) l = obj_at s l"
  by (simp add: obj_at_def put_node_def)

lemma node_at_put_obj [simp]: "node_at (put_obj s l L) b = node_at s b"
  by (simp add: node_at_def put_obj_def)

lemma obj_at_put_obj [simp]:
  "obj_at (put_obj s l L) k = (if k = l \<and> l < length (objs s) then Some L else obj_at s k)"
  by (auto simp: obj_at_def put_obj_def)

lemma node_at_Some_less: "node_at s a = Some n \<Longrightarrow> a < length (nodes s)"
  by (auto simp: node_at_def split: if_splits)

lemma obj_at_Some_less: "obj_at s l = Some L \<Longrightarrow> l < length (objs s)"
  by (auto simp: obj_at_def split: if_splits)

lemma links_cong: "node_at s' a = node_at s a \<Longrightarrow> links s' a p q = links s a p q"
  by (simp add: links_def)

lemma dseg_cong: "(\<And>a. a \<in> set as \<Longrightarrow> node_at s' a = node_at s a) \<Longrightarrow> dseg s' p as q = dseg s p as q"
  by (induction as arbitrary: p) (simp_all add: links_def)

lemma dseg_links_nth:
  "dseg s p as q \<Longrightarrow> i < length as \<Longrightarrow>
     links s (as ! i) (if i = 0 then p else Some (as ! (i - 1))) (if Suc i = length as then q else Some (as ! Suc i))"
proof (induction as arbitrary: p i)
  case Nil
  then show ?case by simp
next
  case (Cons a as)
  show ?case
  proof (cases i)
    case 0
    from Cons.prems have "links s a p (hd_or as q)" by simp
    then show ?thesis using 0 by (cases as) simp_all
  next
    case (Suc j)
    with Cons.prems have "dseg s (Some a) as q" "j < length as" by simp_all
    from Cons.IH[OF this]
    have "links s (as ! j) (if j = 0 then Some a else Some (as ! (j - 1)))
            (if Suc j = length as then q else Some (as ! Suc j))" .
    then show ?thesis using Suc by (cases j; simp split: if_splits)
  qed
qed

lemma dseg_distinct: "dseg s None as q \<Longrightarrow> distinct as"
proof (induction as arbitrary: q rule: rev_induct)
  case Nil
  then show ?case by simp
next
  case (snoc x xs)
  from snoc.prems have 1: "dseg s None xs (Some x)" and 2: "links s x (last_or xs None) q"
    by (auto simp: dseg_append)
  from snoc.IH[OF 1] have d: "distinct xs" .
  have "x \<notin> set xs"
  proof
    assume "x \<in> set xs"
    then obtain i where i: "i < length xs" "xs ! i = x" by (auto simp: in_set_conv_nth)
    from dseg_links_nth[OF 1 i(1)] i(2)
    have "links s x (if i = 0 then None else Some (xs ! (i - 1))) (if Suc i = length xs then Some x else Some (xs ! Suc i))"
      by simp
    with 2 have e: "last_or xs None = (if i = 0 then None else Some (xs ! (i - 1)))"
      by (auto simp: links_def split: option.splits)
    from i have ne: "xs \<noteq> []" by auto
    show False
    proof (cases i)
      case 0
      with e ne show ?thesis by (simp add: last_or_def)
    next
      case (Suc j)
      with e ne have "last xs = xs ! j" by (simp add: last_or_def)
      then have "xs ! (length xs - 1) = xs ! j" using ne by (simp add: last_conv_nth)
      with d Suc i have "length xs - 1 = j" by (simp add: nth_eq_iff_index_eq)
      with Suc i show False by simp
    qed
  qed
  with d show ?case by simp
qed

lemma nodes_put_node [simp]: "length (nodes (put_node s a c)) = length (nodes s)"
  by (simp add: put_node_def)

lemma objs_put_node [simp]: "objs (put_node s a c) = objs s"
  by (simp add: put_node_def)

lemma nodes_put_obj [simp]: "nodes (put_obj s l L) = nodes s"
  by (simp add: put_obj_def)

lemma objs_put_obj [simp]: "objs (put_obj s l L) = (objs s)[l := L]"
  by (simp add: put_obj_def)

lemma links_put_node [simp]:
  "links (put_node s a (Some n)) b p q =
     (if b = a \<and> a < length (nodes s) then prev n = p \<and> next n = q else links s b p q)"
  by (simp add: links_def)

lemma links_put_obj [simp]: "links (put_obj s l L) b p q = links s b p q"
  by (simp add: links_def)

lemma read_data_put_node [simp]:
  "read_data (put_node s a c) b =
     (if b = a \<and> a < length (nodes s) then (case c of None \<Rightarrow> None | Some n \<Rightarrow> data n) else read_data s b)"
  by (simp add: read_data_def)

lemma read_data_put_obj [simp]: "read_data (put_obj s l L) b = read_data s b"
  by (simp add: read_data_def)

lemma dseg_put_node [simp]: "a \<notin> set as \<Longrightarrow> dseg (put_node s a c) p as q = dseg s p as q"
  by (rule dseg_cong) auto

lemma dseg_put_obj [simp]: "dseg (put_obj s l L) p as q = dseg s p as q"
  by (rule dseg_cong) simp

lemma linksE: "links s a p q \<Longrightarrow> (\<And>n. node_at s a = Some n \<Longrightarrow> prev n = p \<Longrightarrow> next n = q \<Longrightarrow> P) \<Longrightarrow> P"
  by (auto simp: links_def split: option.splits)

lemma erase_node_spec:
  assumes d: "dseg s None (xs @ p # a # q # ys) None" and o: "obj_at s l = Some L"
  shows "\<exists>s'. erase_node s l (Some a) = Some (Some a, s')
          \<and> dseg s' None (xs @ p # q # ys) None \<and> links_only s s' {p, q}
          \<and> objs s' = (objs s)[l := L\<lparr>list_size := size_pred (list_size L)\<rparr>]"
proof -
  from dseg_distinct[OF d] have dist: "distinct (xs @ p # a # q # ys)" .
  from d have dx: "dseg s None xs (Some p)" and lp: "links s p (last_or xs None) (Some a)"
    and la: "links s a (Some p) (Some q)" and lq: "links s q (Some a) (hd_or ys None)"
    and dy: "dseg s (Some q) ys None"
    by (simp_all add: dseg_append)
  from lp obtain pn where pn: "node_at s p = Some pn" "prev pn = last_or xs None" by (rule linksE)
  from la obtain an where an: "node_at s a = Some an" "prev an = Some p" "next an = Some q" by (rule linksE)
  from lq obtain qn where qn: "node_at s q = Some qn" "next qn = hd_or ys None" by (rule linksE)
  from dist have ne: "p \<noteq> a" "a \<noteq> q" "p \<noteq> q" "p \<notin> set xs" "q \<notin> set xs" "p \<notin> set ys" "q \<notin> set ys"
    by auto
  define s1 where "s1 = put_node s p (Some (pn\<lparr>next := Some q\<rparr>))"
  define s2 where "s2 = put_node s1 q (Some (qn\<lparr>prev := Some p\<rparr>))"
  define s3 where "s3 = put_obj s2 l (L\<lparr>list_size := size_pred (list_size L)\<rparr>)"
  have pl: "p < length (nodes s)" "q < length (nodes s)"
    using pn qn by (auto dest: node_at_Some_less)
  have e: "erase_node s l (Some a) = Some (Some a, s3)"
    using pn an qn ne o pl
    by (simp add: erase_node_def deref_def set_next_def set_prev_def size_decr_def
        s1_def s2_def s3_def size_pred_def)
  have "dseg s3 None (xs @ p # q # ys) None"
    using dx dy pn qn ne pl
    by (simp add: dseg_append s3_def s2_def s1_def links_def)
  moreover have "links_only s s3 {p, q}"
    using pn qn pl by (auto simp: links_only_def s3_def s2_def s1_def read_data_def)
  moreover have "objs s3 = (objs s)[l := L\<lparr>list_size := size_pred (list_size L)\<rparr>]"
    by (simp add: s3_def s2_def s1_def)
  ultimately show ?thesis using e by blast
qed

subsection \<open>The checks of the iterators and of the throwing operations\<close>

lemma inc_raises:
  "(map_option fst (iter_preinc s it) = Some (Inl invalid_iterator)) = (unset it \<or> at_end s it)"
  "(map_option fst (iter_postinc s it) = Some (Inl invalid_iterator)) = (unset it \<or> at_end s it)"
  "(map_option fst (citer_preinc s it) = Some (Inl invalid_iterator)) = (unset it \<or> at_end s it)"
  "(map_option fst (citer_postinc s it) = Some (Inl invalid_iterator)) = (unset it \<or> at_end s it)"
  by (auto simp: iter_preinc_def iter_postinc_def citer_preinc_def citer_postinc_def unset_def at_end_def
      end_list_def iter_eq_def deref_list_def split: option.splits Option.bind_splits if_splits)

lemma dec_raises:
  "(map_option fst (iter_predec s it) = Some (Inl invalid_iterator)) = (unset it \<or> at_begin s it)"
  "(map_option fst (iter_postdec s it) = Some (Inl invalid_iterator)) = (unset it \<or> at_begin s it)"
  "(map_option fst (citer_predec s it) = Some (Inl invalid_iterator)) = (unset it \<or> at_begin s it)"
  "(map_option fst (citer_postdec s it) = Some (Inl invalid_iterator)) = (unset it \<or> at_begin s it)"
  by (auto simp: iter_predec_def iter_postdec_def citer_predec_def citer_postdec_def unset_def at_begin_def
      begin_list_def iter_eq_def deref_list_def split: option.splits Option.bind_splits if_splits)

lemma deref_raises:
  "(iter_deref s it = Some (Inl invalid_iterator)) = (unset it \<or> on_sentinel s it)"
  "(iter_arrow s it = Some (Inl invalid_iterator)) = (unset it \<or> on_sentinel s it)"
  "(citer_deref s it = Some (Inl invalid_iterator)) = (unset it \<or> on_sentinel s it)"
  "(citer_arrow s it = Some (Inl invalid_iterator)) = (unset it \<or> on_sentinel s it)"
  by (auto simp: iter_deref_def iter_arrow_def citer_deref_def citer_arrow_def unset_def on_sentinel_def
      deref_list_def split: option.splits Option.bind_splits if_splits)

lemma throw_keeps_state:
  "front s l = Some (Inl e, s') \<Longrightarrow> s' = s"
  "back_list s l = Some (Inl e, s') \<Longrightarrow> s' = s"
  "pop_front s l = Some (Inl e, s') \<Longrightarrow> s' = s"
  "pop_back s l = Some (Inl e, s') \<Longrightarrow> s' = s"
  "insert_iter s l pos v = Some (Inl e, s') \<Longrightarrow> s' = s"
  "erase_iter s l pos = Some (Inl e, s') \<Longrightarrow> s' = s"
  by (auto simp: front_def back_list_def pop_front_def pop_back_def insert_iter_def erase_iter_def Let_def
      split: Option.bind_splits if_splits prod.splits)

lemma throw_keeps_iterator:
  "iter_preinc s it = Some (Inl e, it') \<Longrightarrow> it' = it"
  "iter_postinc s it = Some (Inl e, it') \<Longrightarrow> it' = it"
  "iter_predec s it = Some (Inl e, it') \<Longrightarrow> it' = it"
  "iter_postdec s it = Some (Inl e, it') \<Longrightarrow> it' = it"
  "citer_preinc s it = Some (Inl e, it') \<Longrightarrow> it' = it"
  "citer_postinc s it = Some (Inl e, it') \<Longrightarrow> it' = it"
  "citer_predec s it = Some (Inl e, it') \<Longrightarrow> it' = it"
  "citer_postdec s it = Some (Inl e, it') \<Longrightarrow> it' = it"
  by (auto simp: iter_preinc_def iter_postinc_def citer_preinc_def citer_postinc_def
      iter_predec_def iter_postdec_def citer_predec_def citer_postdec_def
      split: option.splits Option.bind_splits if_splits)

lemma deref_end_raises:
  "\<forall>e. end_list s l = Some e \<longrightarrow> iter_deref s e = Some (Inl invalid_iterator)"
  by (auto simp: end_list_def iter_deref_def deref_list_def split: Option.bind_splits)

lemma insert_node_spec:
  assumes d: "dseg s None (xs @ p # q # ys) None" and c: "node_at s c = Some cn"
    and nc: "c \<notin> set (xs @ p # q # ys)" and o: "obj_at s l = Some L"
  shows "\<exists>s'. insert_node s l (Some q) (Some c) = Some (Some c, s')
          \<and> dseg s' None (xs @ p # c # q # ys) None \<and> links_only s s' {p, c, q}
          \<and> objs s' = (objs s)[l := L\<lparr>list_size := list_size L + 1\<rparr>]"
proof -
  from dseg_distinct[OF d] have dist: "distinct (xs @ p # q # ys)" .
  from d have dx: "dseg s None xs (Some p)" and lp: "links s p (last_or xs None) (Some q)"
    and lq: "links s q (Some p) (hd_or ys None)" and dy: "dseg s (Some q) ys None"
    by (simp_all add: dseg_append)
  from lp obtain pn where pn: "node_at s p = Some pn" "prev pn = last_or xs None" by (rule linksE)
  from lq obtain qn where qn: "node_at s q = Some qn" "prev qn = Some p" "next qn = hd_or ys None"
    by (rule linksE)
  from dist nc have ne: "p \<noteq> q" "p \<noteq> c" "q \<noteq> c" "c \<notin> set xs" "c \<notin> set ys"
    "p \<notin> set xs" "q \<notin> set xs" "p \<notin> set ys" "q \<notin> set ys"
    by auto
  define s2 where "s2 = put_node (put_node s c (Some (cn\<lparr>prev := Some p\<rparr>))) c
                          (Some (cn\<lparr>prev := Some p, next := Some q\<rparr>))"
  define s4 where "s4 = put_node (put_node s2 p (Some (pn\<lparr>next := Some c\<rparr>))) q
                          (Some (qn\<lparr>prev := Some c\<rparr>))"
  define s5 where "s5 = put_obj s4 l (L\<lparr>list_size := list_size L + 1\<rparr>)"
  have pl: "p < length (nodes s)" "q < length (nodes s)" "c < length (nodes s)"
    using pn qn c by (auto dest: node_at_Some_less)
  have e: "insert_node s l (Some q) (Some c) = Some (Some c, s5)"
    using pn c qn ne o pl
    by (simp add: insert_node_def deref_def set_next_def set_prev_def size_incr_def
        s2_def s4_def s5_def)
  have "dseg s5 None (xs @ p # c # q # ys) None"
    using dx dy pn qn ne pl
    by (simp add: dseg_append s5_def s4_def s2_def links_def)
  moreover have "links_only s s5 {p, c, q}"
    using pn qn c pl by (auto simp: links_only_def s5_def s4_def s2_def read_data_def)
  moreover have "objs s5 = (objs s)[l := L\<lparr>list_size := list_size L + 1\<rparr>]"
    by (simp add: s5_def s4_def s2_def)
  ultimately show ?thesis using e by blast
qed

subsection \<open>The primitives in the middle of a chain\<close>

lemma erase_node_mid:
  assumes d: "dseg s None (us @ a # vs) None" and u: "us \<noteq> []" and v: "vs \<noteq> []"
    and o: "obj_at s l = Some L"
  shows "\<exists>s'. erase_node s l (Some a) = Some (Some a, s')
          \<and> dseg s' None (us @ vs) None \<and> links_only s s' {last us, hd vs}
          \<and> objs s' = (objs s)[l := L\<lparr>list_size := size_pred (list_size L)\<rparr>]"
proof -
  from u obtain xs p where us: "us = xs @ [p]" by (metis append_butlast_last_id)
  from v obtain q ys where vs: "vs = q # ys" by (cases vs) auto
  from erase_node_spec[of s xs p a q ys l L] d o us vs show ?thesis by simp
qed

lemma insert_node_mid:
  assumes d: "dseg s None (us @ q # ys) None" and u: "us \<noteq> []" and c: "node_at s c = Some cn"
    and nc: "c \<notin> set (us @ q # ys)" and o: "obj_at s l = Some L"
  shows "\<exists>s'. insert_node s l (Some q) (Some c) = Some (Some c, s')
          \<and> dseg s' None (us @ c # q # ys) None \<and> links_only s s' {last us, c, q}
          \<and> objs s' = (objs s)[l := L\<lparr>list_size := list_size L + 1\<rparr>]"
proof -
  from u obtain xs p where us: "us = xs @ [p]" by (metis append_butlast_last_id)
  from insert_node_spec[of s xs p q ys c cn l L] d o us c nc show ?thesis by simp
qed

subsection \<open>Allocation and frames\<close>

lemma alloc_cell_fst [simp]: "fst (alloc_cell s n) = length (nodes s)"
  by (simp add: alloc_cell_def)

lemma node_at_alloc [simp]:
  "node_at (snd (alloc_cell s n)) b = (if b = length (nodes s) then Some n else node_at s b)"
  by (auto simp: alloc_cell_def node_at_def nth_append)

lemma obj_at_alloc [simp]: "obj_at (snd (alloc_cell s n)) l = obj_at s l"
  by (simp add: alloc_cell_def obj_at_def)

lemma objs_alloc [simp]: "objs (snd (alloc_cell s n)) = objs s"
  by (simp add: alloc_cell_def)

lemma length_nodes_alloc [simp]: "length (nodes (snd (alloc_cell s n))) = Suc (length (nodes s))"
  by (simp add: alloc_cell_def)

lemma dseg_in_range: "dseg s p as q \<Longrightarrow> a \<in> set as \<Longrightarrow> a < length (nodes s)"
  by (induction as arbitrary: p) (auto simp: links_def node_at_def split: option.splits if_splits)

lemma dseg_alloc: "dseg s p as q \<Longrightarrow> dseg (snd (alloc_cell s n)) p as q"
proof -
  assume d: "dseg s p as q"
  have "dseg (snd (alloc_cell s n)) p as q = dseg s p as q"
    by (rule dseg_cong) (use dseg_in_range[OF d] in auto)
  with d show ?thesis by simp
qed

lemma read_data_alloc [simp]:
  "read_data (snd (alloc_cell s n)) b = (if b = length (nodes s) then data n else read_data s b)"
  by (simp add: read_data_def)

lemma frame_refl: "frame s s l A"
  by (simp add: frame_def)

lemma frame_alloc: "frame s (snd (alloc_cell s n)) l A"
  by (simp add: frame_def)

lemma frame_links_only:
  "links_only s s' B \<Longrightarrow> B \<subseteq> A \<Longrightarrow> objs s' = (objs s)[l := L'] \<Longrightarrow> frame s s' l A"
  by (auto simp: frame_def links_only_def obj_at_def)

lemma frame_trans:
  "frame s s' l A \<Longrightarrow> frame s' s'' l A' \<Longrightarrow> (\<And>b. b \<in> A' \<Longrightarrow> b < length (nodes s) \<Longrightarrow> b \<in> A)
     \<Longrightarrow> frame s s'' l A"
  unfolding frame_def by (metis le_trans less_le_trans)

lemma frame_mono: "frame s s' l A \<Longrightarrow> A \<subseteq> B \<Longrightarrow> frame s s' l B"
  by (auto simp: frame_def)

subsection \<open>The invariant\<close>

lemma reprE:
  assumes "repr s l as xs"
  obtains L where "obj_at s l = Some L" "dseg s None (cells L as) None" "list_size L = length as"
    "map (read_data s) as = map Some xs"
  using assms by (auto simp: repr_def split: option.splits)

lemma reprI:
  "obj_at s l = Some L \<Longrightarrow> dseg s None (cells L as) None \<Longrightarrow> list_size L = length as
     \<Longrightarrow> map (read_data s) as = map Some xs \<Longrightarrow> repr s l as xs"
  by (simp add: repr_def)

lemma repr_length: "repr s l as xs \<Longrightarrow> length xs = length as"
  by (auto simp: repr_def split: option.splits dest: map_eq_imp_length_eq)

lemma cells_in_range: "dseg s None (cells L as) None \<Longrightarrow> b \<in> set (cells L as) \<Longrightarrow> b < length (nodes s)"
  by (rule dseg_in_range)

lemma cells_distinct: "dseg s None (cells L as) None \<Longrightarrow> distinct (cells L as)"
  by (rule dseg_distinct)

subsection \<open>Linking a new node and unlinking a node of a valid container\<close>

lemma map_read_data_cong:
  "(\<And>b. b \<in> set as \<Longrightarrow> read_data s' b = read_data s b) \<Longrightarrow> map (read_data s') as = map (read_data s) as"
  by simp

lemma map_split_take_drop:
  "map f (pre @ rest) = map Some xs \<Longrightarrow>
     map f pre = map Some (take (length pre) xs) \<and> map f rest = map Some (drop (length pre) xs)"
  by (simp add: append_eq_conv_conj take_map drop_map)

lemma insert_at:
  assumes r: "repr s l (pre @ rest) xs" and o: "obj_at s l = Some L"
    and q: "q = hd (rest @ [tail L])" and c: "c = length (nodes s)"
  shows "\<exists>s'. insert_node (snd (new_node s v)) l (Some q) (Some c) = Some (Some c, s')
           \<and> repr s' l (pre @ c # rest) (take (length pre) xs @ v # drop (length pre) xs)
           \<and> upd_ok s l (pre @ rest) s' (pre @ c # rest)
           \<and> length (nodes s') = Suc (length (nodes s))
           \<and> obj_at s' l = Some (L\<lparr>list_size := list_size L + 1\<rparr>)"
proof -
  from r o have d: "dseg s None (cells L (pre @ rest)) None" and sz: "list_size L = length (pre @ rest)"
    and vs: "map (read_data s) (pre @ rest) = map Some xs"
    by (auto elim!: reprE)
  define n :: "'a node" where "n = \<lparr>data = Some v, prev = None, next = None\<rparr>"
  define s0 where "s0 = snd (alloc_cell s n)"
  define ys where "ys = tl (rest @ [tail L])"
  define us where "us = head L # pre"
  have split: "cells L (pre @ rest) = us @ q # ys"
    by (simp add: cells_def us_def ys_def q)
  have rng: "\<And>b. b \<in> set (cells L (pre @ rest)) \<Longrightarrow> b < length (nodes s)"
    using cells_in_range[OF d] .
  have d0: "dseg s0 None (us @ q # ys) None"
    using dseg_alloc[OF d] by (simp add: s0_def split)
  have c0: "node_at s0 c = Some n" by (simp add: s0_def c)
  have nc: "c \<notin> set (us @ q # ys)" using rng c split by auto
  have o0: "obj_at s0 l = Some L" using o by (simp add: s0_def)
  have une: "us \<noteq> []" by (simp add: us_def)
  from insert_node_mid[OF d0 une c0 nc o0]
  obtain s' where e: "insert_node s0 l (Some q) (Some c) = Some (Some c, s')"
    and d': "dseg s' None (us @ c # q # ys) None"
    and lo: "links_only s0 s' {last us, c, q}"
    and ob: "objs s' = (objs s0)[l := L\<lparr>list_size := list_size L + 1\<rparr>]"
    by blast
  let ?L' = "L\<lparr>list_size := list_size L + 1\<rparr>"
  have ll: "l < length (objs s)" using o by (rule obj_at_Some_less)
  have o': "obj_at s' l = Some ?L'" using ob ll by (simp add: obj_at_def s0_def)
  have cells': "cells ?L' (pre @ c # rest) = us @ c # q # ys"
    using split by (simp add: cells_def us_def)
  have rd: "\<And>b. read_data s' b = (if b = c then Some v else read_data s b)"
    using lo by (simp add: links_only_def s0_def c n_def)
  have "c \<notin> set pre" "c \<notin> set rest" using rng c by (auto simp: cells_def)
  then have "map (read_data s') pre = map (read_data s) pre" "map (read_data s') rest = map (read_data s) rest"
    by (simp_all add: rd)
  with map_split_take_drop[OF vs]
  have vs': "map (read_data s') (pre @ c # rest) = map Some (take (length pre) xs @ v # drop (length pre) xs)"
    by (simp add: rd)
  have r': "repr s' l (pre @ c # rest) (take (length pre) xs @ v # drop (length pre) xs)"
    using o' d' cells' sz vs' by (intro reprI[of _ _ ?L']) simp_all
  have len: "length (nodes s') = Suc (length (nodes s))" using lo by (simp add: links_only_def s0_def)
  have A: "{last us, c, q} \<subseteq> set (cells L (pre @ rest)) \<union> {c}"
    using une by (auto simp: split)
  have f0: "frame s s0 l (set (cells L (pre @ rest)))" unfolding s0_def by (rule frame_alloc)
  have f1: "frame s0 s' l (set (cells L (pre @ rest)) \<union> {c})"
    using lo A ob by (rule frame_links_only)
  have f: "frame s s' l (set (cells L (pre @ rest)))"
    using f0 f1 by (rule frame_trans) (auto simp: c)
  have "\<forall>b\<in>set (cells ?L' (pre @ c # rest)). b < length (nodes s) \<longrightarrow> b \<in> set (cells L (pre @ rest))"
    by (auto simp: cells_def c)
  with o o' f have u: "upd_ok s l (pre @ rest) s' (pre @ c # rest)"
    unfolding upd_ok_def by blast
  from e r' u len o' show ?thesis by (auto simp: new_node_def s0_def n_def)
qed

lemma frame_put_node: "a \<in> A \<Longrightarrow> frame s (put_node s a c) l A"
  by (auto simp: frame_def)

lemma erase_at:
  assumes r: "repr s l (pre @ a # rest) xs" and o: "obj_at s l = Some L"
  shows "\<exists>s1 s'. erase_node s l (Some a) = Some (Some a, s1) \<and> delete_node s1 (Some a) = Some s'
           \<and> repr s' l (pre @ rest) (take (length pre) xs @ drop (Suc (length pre)) xs)
           \<and> upd_ok s l (pre @ a # rest) s' (pre @ rest)
           \<and> node_at s' a = None \<and> length (nodes s') = length (nodes s)
           \<and> obj_at s' l = Some (L\<lparr>list_size := list_size L - 1\<rparr>)"
proof -
  from r o have d: "dseg s None (cells L (pre @ a # rest)) None"
    and sz: "list_size L = length (pre @ a # rest)"
    and vs: "map (read_data s) (pre @ a # rest) = map Some xs"
    by (auto elim!: reprE)
  define us where "us = head L # pre"
  define ws where "ws = rest @ [tail L]"
  have split: "cells L (pre @ a # rest) = us @ a # ws"
    by (simp add: cells_def us_def ws_def)
  have une: "us \<noteq> []" and wne: "ws \<noteq> []" by (simp_all add: us_def ws_def)
  from d have d0: "dseg s None (us @ a # ws) None" by (simp add: split)
  from dseg_distinct[OF d0] have dist: "distinct (us @ a # ws)" .
  from erase_node_mid[OF d0 une wne o]
  obtain s1 where e: "erase_node s l (Some a) = Some (Some a, s1)"
    and d1: "dseg s1 None (us @ ws) None"
    and lo: "links_only s s1 {last us, hd ws}"
    and ob: "objs s1 = (objs s)[l := L\<lparr>list_size := size_pred (list_size L)\<rparr>]"
    by blast
  let ?L' = "L\<lparr>list_size := list_size L - 1\<rparr>"
  have sp: "size_pred (list_size L) = list_size L - 1" using sz by (simp add: size_pred_def)
  have ll: "l < length (objs s)" using o by (rule obj_at_Some_less)
  have al: "a < length (nodes s)" using dseg_in_range[OF d0, of a] by simp
  have "node_at s a \<noteq> None"
    using d0 by (auto simp: dseg_append links_def split: option.splits)
  then have "node_at s1 a \<noteq> None" using lo by (simp add: links_only_def)
  then obtain an where an: "node_at s1 a = Some an" by blast
  define s' where "s' = put_node s1 a None"
  have del: "delete_node s1 (Some a) = Some s'" using an by (simp add: delete_node_def s'_def)
  have len1: "length (nodes s1) = length (nodes s)" using lo by (simp add: links_only_def)
  have o': "obj_at s' l = Some ?L'" using ob ll sp by (simp add: obj_at_def s'_def)
  have na: "a \<notin> set (us @ ws)" using dist by auto
  have "dseg s' None (us @ ws) None"
    using d1 na unfolding s'_def by (subst dseg_put_node) simp_all
  then have d': "dseg s' None (cells ?L' (pre @ rest)) None"
    by (simp add: cells_def us_def ws_def)
  have rd: "\<And>b. b \<noteq> a \<Longrightarrow> read_data s' b = read_data s b"
    using lo by (simp add: links_only_def s'_def)
  have "a \<notin> set pre" "a \<notin> set rest" using na by (auto simp: us_def ws_def)
  then have "map (read_data s') pre = map (read_data s) pre" "map (read_data s') rest = map (read_data s) rest"
    by (auto intro!: rd)
  moreover from map_split_take_drop[OF vs]
  have v1: "map (read_data s) pre = map Some (take (length pre) xs)"
    and v2: "map (read_data s) ([a] @ rest) = map Some (drop (length pre) xs)" by simp_all
  moreover from map_split_take_drop[OF v2]
  have "map (read_data s) rest = map Some (drop (Suc (length pre)) xs)" by simp
  ultimately have vs': "map (read_data s') (pre @ rest)
        = map Some (take (length pre) xs @ drop (Suc (length pre)) xs)"
    by simp
  have r': "repr s' l (pre @ rest) (take (length pre) xs @ drop (Suc (length pre)) xs)"
    using o' d' sz vs' by (intro reprI[of _ _ ?L']) simp_all
  have A: "{last us, hd ws} \<subseteq> set (cells L (pre @ a # rest))"
    using une wne by (auto simp: split)
  have f1: "frame s s1 l (set (cells L (pre @ a # rest)))"
    using lo A ob by (rule frame_links_only)
  have f2: "frame s1 s' l (set (cells L (pre @ a # rest)))"
    unfolding s'_def by (rule frame_put_node) (simp add: split)
  have f: "frame s s' l (set (cells L (pre @ a # rest)))"
    using f1 f2 by (rule frame_trans)
  have "\<forall>b\<in>set (cells ?L' (pre @ rest)). b < length (nodes s) \<longrightarrow> b \<in> set (cells L (pre @ a # rest))"
    by (auto simp: cells_def)
  with o o' f have u: "upd_ok s l (pre @ a # rest) s' (pre @ rest)"
    unfolding upd_ok_def by blast
  have "node_at s' a = None" using al len1 by (simp add: s'_def)
  moreover have "length (nodes s') = length (nodes s)" using len1 by (simp add: s'_def)
  ultimately show ?thesis using e del r' u o' by blast
qed

subsection \<open>The public operations on a valid container\<close>

lemma dseg_mid_links: "dseg s p (us @ a # ws) q \<Longrightarrow> links s a (last_or us p) (hd_or ws q)"
  by (simp add: dseg_append)

lemma repr_node:
  assumes "repr s l (pre @ a # rest) xs" "obj_at s l = Some L"
  obtains n where "node_at s a = Some n" "prev n = Some (last (head L # pre))"
    "next n = Some (hd (rest @ [tail L]))" "data n = Some (xs ! length pre)"
    "a \<noteq> head L" "a \<noteq> tail L"
proof -
  from assms have d: "dseg s None (cells L (pre @ a # rest)) None"
    and vs: "map (read_data s) (pre @ a # rest) = map Some xs"
    by (auto elim!: reprE)
  from d have "dseg s None ((head L # pre) @ a # (rest @ [tail L])) None" by (simp add: cells_def)
  from dseg_mid_links[OF this] have "links s a (Some (last (head L # pre))) (Some (hd (rest @ [tail L])))"
    by (cases rest) (simp_all add: last_or_def)
  then obtain n where n: "node_at s a = Some n" "prev n = Some (last (head L # pre))"
    "next n = Some (hd (rest @ [tail L]))" by (rule linksE)
  from assms(1) have lx: "length xs = length (pre @ a # rest)" by (rule repr_length)
  from vs have "map (read_data s) (pre @ a # rest) ! length pre = map Some xs ! length pre" by simp
  with lx have "read_data s a = Some (xs ! length pre)" by (simp add: nth_append)
  with n have dn: "data n = Some (xs ! length pre)" by (simp add: read_data_def)
  from dseg_distinct[OF d] have "a \<noteq> head L" "a \<noteq> tail L" by (auto simp: cells_def)
  with n dn show ?thesis using that by blast
qed

lemma repr_head:
  assumes "repr s l as xs" "obj_at s l = Some L"
  obtains hn where "node_at s (head L) = Some hn" "prev hn = None" "next hn = Some (hd (as @ [tail L]))"
proof -
  from assms have d: "dseg s None (cells L as) None" by (auto elim!: reprE)
  then have "links s (head L) None (Some (hd (as @ [tail L])))"
    by (cases as) (simp_all add: cells_def)
  then show ?thesis using that by (rule linksE)
qed

lemma repr_tail:
  assumes "repr s l as xs" "obj_at s l = Some L"
  obtains tn where "node_at s (tail L) = Some tn" "prev tn = Some (last (head L # as))" "next tn = None"
proof -
  from assms have d: "dseg s None (cells L as) None" by (auto elim!: reprE)
  then have "dseg s None ((head L # as) @ tail L # []) None" by (simp add: cells_def)
  from dseg_mid_links[OF this] have "links s (tail L) (Some (last (head L # as))) None"
    by (simp add: last_or_def)
  then show ?thesis using that by (rule linksE)
qed

lemma repr_empty_list: "repr s l as xs \<Longrightarrow> empty_list s l = Some (as = [])"
  by (auto simp: empty_list_def elim!: reprE)

lemma repr_size_list: "repr s l as xs \<Longrightarrow> size_list s l = Some (length as)"
  by (auto simp: size_list_def elim!: reprE)

lemma fst_new_node [simp]: "fst (new_node s v) = length (nodes s)"
  by (simp add: new_node_def)

lemma push_back_spec:
  assumes r: "repr s l as xs"
  shows "\<exists>s'. push_back s l v = Some s' \<and> repr s' l (as @ [length (nodes s)]) (xs @ [v])
           \<and> upd_ok s l as s' (as @ [length (nodes s)]) \<and> length (nodes s') = Suc (length (nodes s))"
proof -
  from r obtain L where o: "obj_at s l = Some L" by (auto elim: reprE)
  from r have r0: "repr s l (as @ []) xs" by simp
  have lx: "length xs = length as" using r by (rule repr_length)
  from insert_at[OF r0 o refl refl, of v] lx o
  show ?thesis by (auto simp: push_back_def new_node_def case_prod_beta)
qed

lemma push_front_spec:
  assumes r: "repr s l as xs"
  shows "\<exists>s'. push_front s l v = Some s' \<and> repr s' l (length (nodes s) # as) (v # xs)
           \<and> upd_ok s l as s' (length (nodes s) # as) \<and> length (nodes s') = Suc (length (nodes s))"
proof -
  from r obtain L where o: "obj_at s l = Some L" by (auto elim: reprE)
  from r have r0: "repr s l ([] @ as) xs" by simp
  from repr_head[OF r o] obtain hn where hn: "node_at s (head L) = Some hn"
    "next hn = Some (hd (as @ [tail L]))" by blast
  have hl: "head L < length (nodes s)" using hn by (auto dest: node_at_Some_less)
  from insert_at[OF r0 o refl refl, of v] o hn hl
  show ?thesis by (auto simp: push_front_def new_node_def case_prod_beta)
qed

lemma insert_iter_spec:
  assumes r: "repr s l (pre @ rest) xs" and o: "obj_at s l = Some L"
    and p: "current pos = Some (hd (rest @ [tail L]))" "container pos = Some l"
  shows "\<exists>s'. insert_iter s l pos v
             = Some (Inr \<lparr>current = Some (length (nodes s)), container = Some l\<rparr>, s')
           \<and> repr s' l (pre @ length (nodes s) # rest) (take (length pre) xs @ v # drop (length pre) xs)
           \<and> upd_ok s l (pre @ rest) s' (pre @ length (nodes s) # rest)
           \<and> length (nodes s') = Suc (length (nodes s))"
  using insert_at[OF r o refl refl, of v] p
  by (auto simp: insert_iter_def new_node_def case_prod_beta)

lemma insert_iter_foreign:
  "container pos \<noteq> Some l \<Longrightarrow> insert_iter s l pos v = Some (Inl invalid_iterator, s)"
  by (simp add: insert_iter_def)

lemma pop_front_spec:
  assumes r: "repr s l (a # as) xs"
  shows "\<exists>s'. pop_front s l = Some (Inr (), s') \<and> repr s' l as (tl xs)
           \<and> upd_ok s l (a # as) s' as \<and> node_at s' a = None \<and> length (nodes s') = length (nodes s)"
proof -
  from r obtain L where o: "obj_at s l = Some L" by (auto elim: reprE)
  from r have r0: "repr s l ([] @ a # as) xs" by simp
  from repr_head[OF r o] obtain hn where hn: "node_at s (head L) = Some hn"
    "next hn = Some a" by auto
  from erase_at[OF r0 o] repr_empty_list[OF r] o hn
  show ?thesis by (auto simp: pop_front_def drop_Suc)
qed

lemma pop_back_spec:
  assumes r: "repr s l (as @ [a]) xs"
  shows "\<exists>s'. pop_back s l = Some (Inr (), s') \<and> repr s' l as (butlast xs)
           \<and> upd_ok s l (as @ [a]) s' as \<and> node_at s' a = None \<and> length (nodes s') = length (nodes s)"
proof -
  from r obtain L where o: "obj_at s l = Some L" by (auto elim: reprE)
  from repr_tail[OF r o] obtain tn where tn: "node_at s (tail L) = Some tn"
    "prev tn = Some a" by auto
  have lx: "length xs = Suc (length as)" using repr_length[OF r] by simp
  then have "take (length as) xs = butlast xs" by (simp add: butlast_conv_take)
  with erase_at[OF r o] repr_empty_list[OF r] o tn lx
  show ?thesis by (auto simp: pop_back_def)
qed

lemma pop_empty:
  assumes r: "repr s l [] xs"
  shows "pop_front s l = Some (Inl container_is_empty, s)" "pop_back s l = Some (Inl container_is_empty, s)"
  using repr_empty_list[OF r] by (simp_all add: pop_front_def pop_back_def)

lemma erase_iter_spec:
  assumes r: "repr s l (pre @ a # rest) xs" and o: "obj_at s l = Some L"
    and p: "current pos = Some a" "container pos = Some l"
  shows "\<exists>s'. erase_iter s l pos
             = Some (Inr \<lparr>current = Some (hd (rest @ [tail L])), container = Some l\<rparr>, s')
           \<and> repr s' l (pre @ rest) (take (length pre) xs @ drop (Suc (length pre)) xs)
           \<and> upd_ok s l (pre @ a # rest) s' (pre @ rest)
           \<and> node_at s' a = None \<and> length (nodes s') = length (nodes s)
           \<and> obj_at s' l = Some (L\<lparr>list_size := list_size L - 1\<rparr>)"
proof -
  from repr_node[OF r o] obtain n where n: "node_at s a = Some n"
    "next n = Some (hd (rest @ [tail L]))" "a \<noteq> tail L" by blast
  from erase_at[OF r o] repr_empty_list[OF r] o n p
  show ?thesis by (auto simp: erase_iter_def end_list_def iter_eq_def deref_def)
qed

subsection \<open>Iterators on a valid container\<close>

lemma iterator_eq_iff: "(it = \<lparr>current = c, container = k\<rparr>) = (current it = c \<and> container it = k)"
  by (cases it) auto

lemma inc_at:
  assumes r: "repr s l (pre @ a # rest) xs" and o: "obj_at s l = Some L"
    and p: "current pos = Some a" "container pos = Some l"
  shows "iter_preinc s pos = Some (Inr \<lparr>current = Some (hd (rest @ [tail L])), container = Some l\<rparr>,
                                   \<lparr>current = Some (hd (rest @ [tail L])), container = Some l\<rparr>)"
    and "citer_preinc s pos = Some (Inr \<lparr>current = Some (hd (rest @ [tail L])), container = Some l\<rparr>,
                                   \<lparr>current = Some (hd (rest @ [tail L])), container = Some l\<rparr>)"
proof -
  from repr_node[OF r o] obtain n where n: "node_at s a = Some n"
    "next n = Some (hd (rest @ [tail L]))" "a \<noteq> tail L" by blast
  have e: "pos\<lparr>current := Some (hd (rest @ [tail L]))\<rparr>
             = \<lparr>current = Some (hd (rest @ [tail L])), container = Some l\<rparr>"
    using p by (simp add: iterator_eq_iff)
  show "iter_preinc s pos = Some (Inr \<lparr>current = Some (hd (rest @ [tail L])), container = Some l\<rparr>,
                                   \<lparr>current = Some (hd (rest @ [tail L])), container = Some l\<rparr>)"
    using n o p e by (simp add: iter_preinc_def deref_list_def)
  show "citer_preinc s pos = Some (Inr \<lparr>current = Some (hd (rest @ [tail L])), container = Some l\<rparr>,
                                   \<lparr>current = Some (hd (rest @ [tail L])), container = Some l\<rparr>)"
    using n o p e by (simp add: citer_preinc_def deref_list_def)
qed

lemma deref_at:
  assumes r: "repr s l (pre @ a # rest) xs" and o: "obj_at s l = Some L"
    and p: "current pos = Some a" "container pos = Some l"
  shows "iter_deref s pos = Some (Inr a)" and "citer_deref s pos = Some (Inr a)"
    and "read_data s a = Some (xs ! length pre)"
proof -
  from repr_node[OF r o] obtain n where n: "node_at s a = Some n" "data n = Some (xs ! length pre)"
    "a \<noteq> tail L" "a \<noteq> head L" by blast
  show "iter_deref s pos = Some (Inr a)" using n o p by (simp add: iter_deref_def deref_list_def)
  show "citer_deref s pos = Some (Inr a)" using n o p by (simp add: citer_deref_def deref_list_def)
  show "read_data s a = Some (xs ! length pre)" using n by (simp add: read_data_def)
qed

lemma begin_at:
  assumes r: "repr s l as xs" and o: "obj_at s l = Some L"
  shows "begin_list s l = Some \<lparr>current = Some (hd (as @ [tail L])), container = Some l\<rparr>"
    and "cbegin s l = Some \<lparr>current = Some (hd (as @ [tail L])), container = Some l\<rparr>"
    and "end_list s l = Some \<lparr>current = Some (tail L), container = Some l\<rparr>"
    and "cend s l = Some \<lparr>current = Some (tail L), container = Some l\<rparr>"
proof -
  from repr_head[OF r o] obtain hn where hn: "node_at s (head L) = Some hn"
    "next hn = Some (hd (as @ [tail L]))" by blast
  show "begin_list s l = Some \<lparr>current = Some (hd (as @ [tail L])), container = Some l\<rparr>"
    using hn o by (simp add: begin_list_def)
  show "cbegin s l = Some \<lparr>current = Some (hd (as @ [tail L])), container = Some l\<rparr>"
    using hn o by (simp add: cbegin_def)
  show "end_list s l = Some \<lparr>current = Some (tail L), container = Some l\<rparr>"
    using o by (simp add: end_list_def)
  show "cend s l = Some \<lparr>current = Some (tail L), container = Some l\<rparr>"
    using o by (simp add: cend_def)
qed

lemma erase_iter_empty: "repr s l [] xs \<Longrightarrow> erase_iter s l pos = Some (Inl container_is_empty, s)"
  using repr_empty_list[of s l "[]" xs] by (simp add: erase_iter_def)

lemma erase_iter_invalid:
  assumes r: "repr s l as xs" and ne: "as \<noteq> []"
    and p: "container pos \<noteq> Some l \<or> (case end_list s l of None \<Rightarrow> False | Some e \<Rightarrow> iter_eq pos e)"
  shows "erase_iter s l pos = Some (Inl invalid_iterator, s)"
proof -
  from r obtain L where o: "obj_at s l = Some L" by (auto elim: reprE)
  from repr_empty_list[OF r] ne p o show ?thesis
    by (auto simp: erase_iter_def end_list_def)
qed

lemma nth_split: "i < length as \<Longrightarrow> as = take i as @ as ! i # drop (Suc i) as"
  by (simp add: id_take_nth_drop)

lemma erase_iter_nth:
  assumes r: "repr s l as xs" and o: "obj_at s l = Some L" and i: "i < length as"
    and p: "current pos = Some (as ! i)" "container pos = Some l"
  shows "\<exists>s' nxt. iter_preinc s pos = Some (Inr nxt, nxt) \<and> erase_iter s l pos = Some (Inr nxt, s')
           \<and> nxt = \<lparr>current = Some ((as @ [tail L]) ! Suc i), container = Some l\<rparr>
           \<and> repr s' l (take i as @ drop (Suc i) as) (take i xs @ drop (Suc i) xs)
           \<and> upd_ok s l as s' (take i as @ drop (Suc i) as)
           \<and> node_at s' (as ! i) = None \<and> length (nodes s') = length (nodes s)
           \<and> (Suc i = length as \<longrightarrow> end_list s' l = Some nxt)"
proof -
  define pre where "pre = take i as"
  define rest where "rest = drop (Suc i) as"
  have as: "as = pre @ as ! i # rest" unfolding pre_def rest_def using i by (rule nth_split)
  have lp: "length pre = i" using i by (simp add: pre_def)
  from r as have r0: "repr s l (pre @ as ! i # rest) xs" by simp
  have h: "hd (rest @ [tail L]) = (as @ [tail L]) ! Suc i"
  proof (cases "Suc i = length as")
    case True
    then show ?thesis by (simp add: rest_def nth_append)
  next
    case False
    with i have "Suc i < length as" by simp
    then show ?thesis by (simp add: rest_def nth_append hd_drop_conv_nth)
  qed
  from erase_iter_spec[OF r0 o p] obtain s' where
    e: "erase_iter s l pos = Some (Inr \<lparr>current = Some (hd (rest @ [tail L])), container = Some l\<rparr>, s')"
    and r': "repr s' l (pre @ rest) (take (length pre) xs @ drop (Suc (length pre)) xs)"
    and u: "upd_ok s l (pre @ as ! i # rest) s' (pre @ rest)"
    and rel: "node_at s' (as ! i) = None" "length (nodes s') = length (nodes s)"
    and o': "obj_at s' l = Some (L\<lparr>list_size := list_size L - 1\<rparr>)"
    by blast
  have en: "Suc i = length as \<longrightarrow>
      end_list s' l = Some \<lparr>current = Some ((as @ [tail L]) ! Suc i), container = Some l\<rparr>"
    using o' by (simp add: end_list_def nth_append)
  from inc_at(1)[OF r0 o p] e r' u rel en show ?thesis
    unfolding h lp using as by (simp add: pre_def rest_def)
qed

lemma ex_three_repr: "repr ex_three 0 [2, 3, 4] [10, 20, 30]"
  by (simp add: repr_def obj_at_def ex_three_def cells_def links_def node_at_def read_data_def)

lemma ex_three_built:
  "do { s1 \<leftarrow> push_back ex_empty 0 10; s2 \<leftarrow> push_back s1 0 20; push_back s2 0 30 } = Some ex_three"
  by (simp add: push_back_def new_node_def alloc_cell_def insert_node_def obj_at_def deref_def
      node_at_def set_prev_def set_next_def put_node_def put_obj_def size_incr_def
      ex_empty_def ex_three_def)

subsection \<open>Reversal\<close>

lemma hd_or_rev: "hd_or (rev xs) q = last_or xs q"
  by (induction xs arbitrary: q rule: rev_induct) simp_all

lemma links_only_refl: "links_only s s A"
  by (simp add: links_only_def)

lemma links_only_trans: "links_only s s' A \<Longrightarrow> links_only s' s'' B \<Longrightarrow> links_only s s'' (A \<union> B)"
  by (auto simp: links_only_def)

lemma links_only_mono: "links_only s s' A \<Longrightarrow> A \<subseteq> B \<Longrightarrow> links_only s s' B"
  by (auto simp: links_only_def)

lemma reverse_loop_spec:
  assumes "dseg s (hd_or rest None) (rev done) None" and "dseg s (last_or done None) rest None"
    and "distinct (done @ rest)"
  shows "\<exists>s'. reverse_loop s (hd_or rest None) = Some s' \<and> dseg s' None (rev (done @ rest)) None
           \<and> links_only s s' (set rest) \<and> objs s' = objs s"
  using assms
proof (induction rest arbitrary: s "done")
  case Nil
  then show ?case by (simp add: reverse_loop.simps links_only_refl)
next
  case (Cons c rest)
  from Cons.prems(2) have lc: "links s c (last_or done None) (hd_or rest None)"
    and dr: "dseg s (Some c) rest None" by simp_all
  from lc obtain n where n: "node_at s c = Some n" "prev n = last_or done None"
    "next n = hd_or rest None" by (rule linksE)
  have cl: "c < length (nodes s)" using n by (auto dest: node_at_Some_less)
  from Cons.prems(3) have nc: "c \<notin> set done" "c \<notin> set rest" by auto
  define s2 where "s2 = put_node (put_node s c (Some (n\<lparr>next := last_or done None\<rparr>))) c
                          (Some (n\<lparr>next := last_or done None, prev := hd_or rest None\<rparr>))"
  have step: "reverse_loop s (Some c) = reverse_loop s2 (hd_or rest None)"
    using n cl by (subst reverse_loop.simps) (simp add: set_next_def set_prev_def s2_def Let_def)
  have a': "dseg s2 (hd_or rest None) (rev (done @ [c])) None"
    using Cons.prems(1) nc cl by (simp add: s2_def hd_or_rev)
  have b': "dseg s2 (last_or (done @ [c]) None) rest None"
    using dr nc by (simp add: s2_def)
  have c': "distinct ((done @ [c]) @ rest)" using Cons.prems(3) by simp
  from Cons.IH[OF a' b' c'] obtain s' where
    s': "reverse_loop s2 (hd_or rest None) = Some s'" "dseg s' None (rev ((done @ [c]) @ rest)) None"
    "links_only s2 s' (set rest)" "objs s' = objs s2" by blast
  have "links_only s s2 {c}" using n cl by (auto simp: links_only_def s2_def read_data_def)
  from links_only_trans[OF this s'(3)] have "links_only s s' (set (c # rest))" by simp
  with s' step show ?case by (simp add: s2_def)
qed

lemma rev_short: "length as \<le> 1 \<Longrightarrow> rev as = as"
  by (cases as) auto

lemma repr_data_cong:
  assumes "repr s l as xs" and "obj_at s' l = Some L'" and "dseg s' None (cells L' as') None"
    and "list_size L' = length as'" and "map (read_data s') as' = map Some xs'"
  shows "repr s' l as' xs'"
  using assms by (simp add: repr_def)

lemma reverse_spec:
  assumes r: "repr s l as xs" and o: "obj_at s l = Some L"
  shows "\<exists>s'. reverse s l = Some s' \<and> repr s' l (rev as) (rev xs) \<and> upd_ok s l as s' (rev as)
           \<and> links_only s s' (set (cells L as))
           \<and> obj_at s' l = Some (if length as \<le> 1 then L else L\<lparr>head := tail L, tail := head L\<rparr>)"
proof (cases "length as \<le> 1")
  case True
  have lx: "length xs = length as" using r by (rule repr_length)
  with True have "rev as = as" "rev xs = xs" by (simp_all add: rev_short)
  moreover have "upd_ok s l as s as" using o by (auto simp: upd_ok_def frame_refl)
  moreover have "reverse s l = Some s" using True repr_size_list[OF r] by (simp add: reverse_def)
  ultimately show ?thesis using r o True by (simp add: links_only_refl)
next
  case False
  from r o have d: "dseg s None (cells L as) None" and sz: "list_size L = length as"
    and vs: "map (read_data s) as = map Some xs"
    by (auto elim!: reprE)
  have hd: "hd_or (cells L as) None = Some (head L)" by (simp add: cells_def)
  have "\<exists>s'. reverse_loop s (hd_or (cells L as) None) = Some s'
           \<and> dseg s' None (rev ([] @ cells L as)) None
           \<and> links_only s s' (set (cells L as)) \<and> objs s' = objs s"
    using d dseg_distinct[OF d] by (intro reverse_loop_spec) simp_all
  then obtain s1 where s1: "reverse_loop s (Some (head L)) = Some s1"
    "dseg s1 None (rev (cells L as)) None" "links_only s s1 (set (cells L as))" "objs s1 = objs s"
    unfolding hd by auto
  let ?L' = "L\<lparr>head := tail L, tail := head L\<rparr>"
  define s' where "s' = put_obj s1 l ?L'"
  have ll: "l < length (objs s)" using o by (rule obj_at_Some_less)
  have o1: "obj_at s1 l = Some L" using o s1(4) by (simp add: obj_at_def split: if_splits)
  have e: "reverse s l = Some s'"
    using False repr_size_list[OF r] o s1(1) o1 by (simp add: reverse_def s'_def Let_def)
  have o': "obj_at s' l = Some ?L'" using ll s1(4) by (simp add: s'_def)
  have c': "cells ?L' (rev as) = rev (cells L as)" by (simp add: cells_def)
  have d': "dseg s' None (cells ?L' (rev as)) None" using s1(2) by (simp add: c' s'_def)
  have rd: "read_data s' = read_data s" using s1(3) by (auto simp: links_only_def s'_def)
  have vs': "map (read_data s') (rev as) = map Some (rev xs)"
    using vs by (simp add: rd rev_map[symmetric])
  have r': "repr s' l (rev as) (rev xs)"
    using o' d' sz vs' by (intro reprI[of _ _ ?L']) simp_all
  have lo: "links_only s s' (set (cells L as))" using s1(3) by (simp add: links_only_def s'_def)
  have "objs s' = (objs s)[l := ?L']" using s1(4) by (simp add: s'_def)
  with lo have f: "frame s s' l (set (cells L as))" by (intro frame_links_only) auto
  have "\<forall>b\<in>set (cells ?L' (rev as)). b < length (nodes s) \<longrightarrow> b \<in> set (cells L as)"
    by (simp add: c')
  with o o' f have u: "upd_ok s l as s' (rev as)" unfolding upd_ok_def by blast
  from e r' u lo o' False show ?thesis by simp
qed

lemma links_same_node:
  "links s a p q \<Longrightarrow> links s' a p q \<Longrightarrow> read_data s' a = read_data s a \<Longrightarrow> node_at s' a = node_at s a"
  by (auto simp: links_def read_data_def split: option.splits)

lemma dseg_same_nodes:
  "dseg s p as q \<Longrightarrow> dseg s' p as q \<Longrightarrow> a \<in> set as \<Longrightarrow> read_data s' a = read_data s a
     \<Longrightarrow> node_at s' a = node_at s a"
  by (induction as arbitrary: p) (auto intro: links_same_node)

lemma state_eqI:
  assumes "length (nodes s') = length (nodes s)" and "\<And>b. node_at s' b = node_at s b"
    and "objs s' = objs s"
  shows "s' = (s :: 'a state)"
proof -
  have "nodes s' = nodes s"
  proof (rule nth_equalityI)
    show "length (nodes s') = length (nodes s)" by fact
    fix i assume "i < length (nodes s')"
    with assms(1) assms(2)[of i] show "nodes s' ! i = nodes s ! i" by (simp add: node_at_def)
  qed
  with assms(3) show ?thesis by simp
qed

lemma reverse_twice:
  assumes r: "repr s l as xs"
  shows "\<exists>s'. reverse s l = Some s' \<and> reverse s' l = Some s"
proof -
  from r obtain L where o: "obj_at s l = Some L" and d: "dseg s None (cells L as) None"
    by (auto elim: reprE)
  from reverse_spec[OF r o] obtain s' where s': "reverse s l = Some s'" "repr s' l (rev as) (rev xs)"
    "links_only s s' (set (cells L as))"
    "obj_at s' l = Some (if length as \<le> 1 then L else L\<lparr>head := tail L, tail := head L\<rparr>)"
    by blast
  let ?L' = "if length as \<le> 1 then L else L\<lparr>head := tail L, tail := head L\<rparr>"
  from reverse_spec[OF s'(2) s'(4)] obtain s'' where s'': "reverse s' l = Some s''"
    "repr s'' l (rev (rev as)) (rev (rev xs))"
    "links_only s' s'' (set (cells ?L' (rev as)))"
    "obj_at s'' l = Some (if length (rev as) \<le> 1 then ?L' else ?L'\<lparr>head := tail ?L', tail := head ?L'\<rparr>)"
    and u: "upd_ok s' l (rev as) s'' (rev (rev as))"
    by blast
  have o'': "obj_at s'' l = Some L" using s''(4) by simp
  have cs: "set (cells ?L' (rev as)) = set (cells L as)" by (auto simp: cells_def)
  from links_only_trans[OF s'(3) s''(3)] have lo: "links_only s s'' (set (cells L as))"
    unfolding cs by simp
  from s''(2) o'' have d'': "dseg s'' None (cells L as) None" by (auto elim!: reprE)
  have "s'' = s"
  proof (rule state_eqI)
    show "length (nodes s'') = length (nodes s)" using lo by (simp add: links_only_def)
    show "node_at s'' b = node_at s b" for b
    proof (cases "b \<in> set (cells L as)")
      case True
      from lo have "read_data s'' b = read_data s b" by (simp add: links_only_def)
      with d d'' True show ?thesis by (rule dseg_same_nodes)
    next
      case False
      with lo show ?thesis by (simp add: links_only_def)
    qed
    from reverse_spec[OF r o] s'(1) have u1: "upd_ok s l as s' (rev as)" by auto
    show "objs s'' = objs s"
    proof (rule nth_equalityI)
      from u u1 show "length (objs s'') = length (objs s)" by (auto simp: upd_ok_def frame_def)
      fix k assume k: "k < length (objs s'')"
      show "objs s'' ! k = objs s ! k"
      proof (cases "k = l")
        case True
        with o o'' show ?thesis by (auto simp: obj_at_def split: if_splits)
      next
        case False
        with u u1 have "obj_at s'' k = obj_at s k" by (auto simp: upd_ok_def frame_def)
        moreover from u u1 have "length (objs s'') = length (objs s)" by (auto simp: upd_ok_def frame_def)
        ultimately show ?thesis using k by (simp add: obj_at_def)
      qed
    qed
  qed
  with s'(1) s''(1) show ?thesis by simp
qed

subsection \<open>Removing consecutive duplicates\<close>

lemma keep_first_values: "map snd (keep_first x zs) = tl (remdups_adj (x # map snd zs))"
  by (induction zs arbitrary: x) auto

lemma uniq_pairs_values: "map snd (uniq_pairs zs) = remdups_adj (map snd zs)"
  by (cases zs) (auto simp: keep_first_values)

lemma keep_first_subset: "set (keep_first x zs) \<subseteq> set zs"
  by (induction x zs rule: keep_first.induct) auto

lemma upd_ok_refl: "obj_at s l = Some L \<Longrightarrow> upd_ok s l as s as"
  by (auto simp: upd_ok_def frame_refl)

lemma upd_ok_trans:
  assumes "upd_ok s l as s' as'" and "upd_ok s' l as' s'' as''"
  shows "upd_ok s l as s'' as''"
proof -
  from assms(1) obtain L L' where 1: "obj_at s l = Some L" "obj_at s' l = Some L'"
    "frame s s' l (set (cells L as))"
    "\<forall>b\<in>set (cells L' as'). b < length (nodes s) \<longrightarrow> b \<in> set (cells L as)"
    unfolding upd_ok_def by blast
  from assms(2) 1(2) obtain L'' where 2: "obj_at s'' l = Some L''"
    "frame s' s'' l (set (cells L' as'))"
    "\<forall>b\<in>set (cells L'' as''). b < length (nodes s') \<longrightarrow> b \<in> set (cells L' as')"
    unfolding upd_ok_def by auto
  have f: "frame s s'' l (set (cells L as))"
    using 1(3) 2(2) by (rule frame_trans) (use 1(4) in blast)
  have le: "length (nodes s) \<le> length (nodes s')" using 1(3) by (simp add: frame_def)
  have "\<forall>b\<in>set (cells L'' as''). b < length (nodes s) \<longrightarrow> b \<in> set (cells L as)"
    using 1(4) 2(3) le by (meson less_le_trans)
  with 1(1) 2(1) f show ?thesis unfolding upd_ok_def by blast
qed

lemma unique_loop_spec:
  assumes "repr s l (pre @ a # map fst zs) (vpre @ x # map snd zs)" and "length vpre = length pre"
    and "obj_at s l = Some L"
  shows "\<exists>s'. unique_loop s l \<lparr>current = Some a, container = Some l\<rparr>
                  \<lparr>current = Some (hd (map fst zs @ [tail L])), container = Some l\<rparr> = Some (Inr (), s')
           \<and> repr s' l (pre @ a # map fst (keep_first x zs)) (vpre @ x # map snd (keep_first x zs))
           \<and> upd_ok s l (pre @ a # map fst zs) s' (pre @ a # map fst (keep_first x zs))"
  using assms
proof (induction zs arbitrary: s pre a vpre x L)
  case Nil
  from begin_at(3)[OF Nil(1,3)] Nil show ?case
    by (subst unique_loop.simps) (simp add: iter_neq_def upd_ok_refl)
next
  case (Cons z zs)
  obtain b y where z: "z = (b, y)" by (cases z)
  let ?it = "\<lparr>current = Some a, container = Some l\<rparr>"
  let ?nx = "\<lparr>current = Some b, container = Some l\<rparr>"
  let ?nx2 = "\<lparr>current = Some (hd (map fst zs @ [tail L])), container = Some l\<rparr>"
  from Cons.prems(1) have r: "repr s l (pre @ a # b # map fst zs) (vpre @ x # y # map snd zs)"
    by (simp add: z)
  note o = Cons.prems(3)
  have en: "end_list s l = Some \<lparr>current = Some (tail L), container = Some l\<rparr>"
    using begin_at(3)[OF r o] .
  from r have r2: "repr s l ((pre @ [a]) @ b # map fst zs) ((vpre @ [x]) @ y # map snd zs)" by simp
  from repr_node[OF r2 o] have bt: "b \<noteq> tail L" by blast
  have da: "iter_deref s ?it = Some (Inr a)" "read_data s a = Some x"
    using deref_at(1,3)[OF r o, of ?it] Cons.prems(2) by (simp_all add: nth_append)
  have db: "iter_deref s ?nx = Some (Inr b)" "read_data s b = Some y"
    using deref_at(1,3)[OF r2 o, of ?nx] Cons.prems(2) by (simp_all add: nth_append)
  show ?case
  proof (cases "x = y")
    case True
    from erase_iter_spec[OF r2 o, of ?nx] obtain s1 where
      e: "erase_iter s l ?nx = Some (Inr ?nx2, s1)"
      and r1: "repr s1 l ((pre @ [a]) @ map fst zs)
                 (take (length (pre @ [a])) ((vpre @ [x]) @ y # map snd zs)
                  @ drop (Suc (length (pre @ [a]))) ((vpre @ [x]) @ y # map snd zs))"
      and u1: "upd_ok s l ((pre @ [a]) @ b # map fst zs) s1 ((pre @ [a]) @ map fst zs)"
      and o1: "obj_at s1 l = Some (L\<lparr>list_size := list_size L - 1\<rparr>)"
      by auto
    from r1 Cons.prems(2) have r1': "repr s1 l (pre @ a # map fst zs) (vpre @ x # map snd zs)"
      by simp
    from Cons.IH[OF r1' Cons.prems(2) o1] obtain s' where
      s': "unique_loop s1 l ?it ?nx2 = Some (Inr (), s')"
      "repr s' l (pre @ a # map fst (keep_first x zs)) (vpre @ x # map snd (keep_first x zs))"
      "upd_ok s1 l (pre @ a # map fst zs) s' (pre @ a # map fst (keep_first x zs))"
      by auto
    have "unique_loop s l ?it ?nx = unique_loop s1 l ?it ?nx2"
      using en bt da db e True by (subst unique_loop.simps) (simp add: iter_neq_def)
    moreover from u1 have "upd_ok s l (pre @ a # b # map fst zs) s1 (pre @ a # map fst zs)" by simp
    from upd_ok_trans[OF this s'(3)]
    have "upd_ok s l (pre @ a # b # map fst zs) s' (pre @ a # map fst (keep_first x zs))" .
    ultimately show ?thesis using s' True by (simp add: z)
  next
    case False
    have i1: "iter_preinc s ?it = Some (Inr ?nx, ?nx)"
      using inc_at(1)[OF r o, of ?it] by simp
    have i2: "iter_preinc s ?nx = Some (Inr ?nx2, ?nx2)"
      using inc_at(1)[OF r2 o, of ?nx] by simp
    have lp: "length (vpre @ [x]) = length (pre @ [a])" using Cons.prems(2) by simp
    from Cons.IH[OF r2 lp o] obtain s' where
      s': "unique_loop s l ?nx ?nx2 = Some (Inr (), s')"
      "repr s' l ((pre @ [a]) @ b # map fst (keep_first y zs)) ((vpre @ [x]) @ y # map snd (keep_first y zs))"
      "upd_ok s l ((pre @ [a]) @ b # map fst zs) s' ((pre @ [a]) @ b # map fst (keep_first y zs))"
      by auto
    have "unique_loop s l ?it ?nx = unique_loop s l ?nx ?nx2"
      using en bt da db i1 i2 False by (subst unique_loop.simps) (simp add: iter_neq_def)
    with s' False show ?thesis by (simp add: z)
  qed
qed

lemma remdups_adj_short: "length xs \<le> 1 \<Longrightarrow> remdups_adj xs = xs"
  by (cases xs) auto

lemma uniq_pairs_short: "length zs \<le> 1 \<Longrightarrow> uniq_pairs zs = zs"
  by (cases zs) auto

lemma unique_spec:
  assumes r: "repr s l as xs"
  shows "\<exists>s'. unique s l = Some (Inr (), s')
           \<and> repr s' l (map fst (uniq_pairs (zip as xs))) (remdups_adj xs)
           \<and> upd_ok s l as s' (map fst (uniq_pairs (zip as xs)))"
proof -
  from r obtain L where o: "obj_at s l = Some L" by (auto elim: reprE)
  have lx: "length xs = length as" using r by (rule repr_length)
  show ?thesis
  proof (cases "length as \<le> 1")
    case True
    with lx have "map fst (uniq_pairs (zip as xs)) = as" "remdups_adj xs = xs"
      by (simp_all add: uniq_pairs_short remdups_adj_short)
    moreover have "unique s l = Some (Inr (), s)"
      using True repr_size_list[OF r] by (simp add: unique_def)
    ultimately show ?thesis using r o by (simp add: upd_ok_refl)
  next
    case False
    with lx obtain a rest x vrest where as: "as = a # rest" and xs: "xs = x # vrest"
      and lr: "length vrest = length rest"
      by (cases as; cases xs) auto
    define zs where "zs = zip rest vrest"
    have z: "map fst zs = rest" "map snd zs = vrest" using lr by (simp_all add: zs_def)
    from r have r0: "repr s l ([] @ a # map fst zs) ([] @ x # map snd zs)" by (simp add: as xs z)
    let ?it = "\<lparr>current = Some a, container = Some l\<rparr>"
    have b: "begin_list s l = Some ?it" using begin_at(1)[OF r o] by (simp add: as)
    have i: "iter_preinc s ?it = Some (Inr \<lparr>current = Some (hd (map fst zs @ [tail L])), container = Some l\<rparr>,
                                        \<lparr>current = Some (hd (map fst zs @ [tail L])), container = Some l\<rparr>)"
      using inc_at(1)[OF r0 o, of ?it] by simp
    from unique_loop_spec[OF r0 _ o] obtain s' where
      s': "unique_loop s l ?it \<lparr>current = Some (hd (map fst zs @ [tail L])), container = Some l\<rparr>
             = Some (Inr (), s')"
      "repr s' l ([] @ a # map fst (keep_first x zs)) ([] @ x # map snd (keep_first x zs))"
      "upd_ok s l ([] @ a # map fst zs) s' ([] @ a # map fst (keep_first x zs))"
      by auto
    have e: "unique s l = Some (Inr (), s')"
      using False repr_size_list[OF r] b i s'(1) by (simp add: unique_def Let_def)
    have u: "uniq_pairs (zip as xs) = (a, x) # keep_first x zs" by (simp add: as xs zs_def)
    have v: "x # map snd (keep_first x zs) = remdups_adj xs"
      using uniq_pairs_values[of "zip as xs"] lx by (simp add: u)
    from e s'(2,3) show ?thesis unfolding u v[symmetric] by (simp add: as z)
  qed
qed

lemma keep_first_subseq: "subseq (map fst (keep_first x zs)) (map fst zs)"
  by (induction x zs rule: keep_first.induct) auto

lemma uniq_pairs_subseq: "subseq (map fst (uniq_pairs (zip as xs))) as"
proof (cases "zip as xs")
  case Nil
  show ?thesis unfolding Nil by simp
next
  case (Cons z zs)
  obtain a x where z: "z = (a, x)" by (cases z)
  from Cons obtain as' xs' where as: "as = a # as'" "xs = x # xs'" "zs = zip as' xs'"
    unfolding z by (cases as; cases xs) auto
  have "subseq (map fst (keep_first x (zip as' xs'))) (map fst (zip as' xs'))"
    by (rule keep_first_subseq)
  also have "subseq (map fst (zip as' xs')) as'"
    by (simp add: map_fst_zip_take prefix_imp_subseq take_is_prefix)
  finally show ?thesis by (simp add: as)
qed

lemma ex_runs_repr: "repr ex_runs 0 [2, 3, 4, 5, 6] [1, 1, 2, 1, 1]"
  by (simp add: repr_def obj_at_def ex_runs_def cells_def links_def node_at_def read_data_def)

lemma ex_runs_built:
  "do { s1 \<leftarrow> push_back ex_empty 0 1; s2 \<leftarrow> push_back s1 0 1; s3 \<leftarrow> push_back s2 0 2;
        s4 \<leftarrow> push_back s3 0 1; push_back s4 0 1 } = Some ex_runs"
  by (simp add: push_back_def new_node_def alloc_cell_def insert_node_def obj_at_def deref_def
      node_at_def set_prev_def set_next_def put_node_def put_obj_def size_incr_def
      ex_empty_def ex_runs_def)

lemma links_alt:
  "links s a p q = (map_option prev (node_at s a) = Some p \<and> map_option next (node_at s a) = Some q)"
  by (auto simp: links_def split: option.splits)

lemma values_only_refl: "values_only s s A"
  by (simp add: values_only_def)

lemma values_only_trans: "values_only s s' A \<Longrightarrow> values_only s' s'' B \<Longrightarrow> values_only s s'' (A \<union> B)"
  by (auto simp: values_only_def)

lemma values_only_mono: "values_only s s' A \<Longrightarrow> A \<subseteq> B \<Longrightarrow> values_only s s' B"
  by (auto simp: values_only_def)

lemma dseg_values_only: "values_only s s' A \<Longrightarrow> dseg s' p as q = dseg s p as q"
  by (induction as arbitrary: p) (simp_all add: links_alt values_only_def)

lemma obj_at_values_only: "values_only s s' A \<Longrightarrow> obj_at s' l = obj_at s l"
  by (simp add: values_only_def obj_at_def)

lemma frame_values_only: "values_only s s' A \<Longrightarrow> A \<subseteq> B \<Longrightarrow> frame s s' l B"
  by (auto simp: values_only_def frame_def obj_at_def)

lemma write_data_at:
  assumes r: "repr s l (pre @ a # rest) xs" and o: "obj_at s l = Some L"
  shows "\<exists>s1. write_data s a v = Some s1 \<and> repr s1 l (pre @ a # rest) (xs[length pre := v])
           \<and> values_only s s1 {a} \<and> obj_at s1 l = Some L"
proof -
  from repr_node[OF r o] obtain n where n: "node_at s a = Some n" "data n = Some (xs ! length pre)"
    by blast
  have al: "a < length (nodes s)" using n by (auto dest: node_at_Some_less)
  define s1 where "s1 = put_node s a (Some (n\<lparr>data := Some v\<rparr>))"
  have w: "write_data s a v = Some s1" using n by (simp add: write_data_def s1_def)
  have vo: "values_only s s1 {a}" using n al by (auto simp: values_only_def s1_def)
  have o1: "obj_at s1 l = Some L" using o by (simp add: s1_def)
  from r o have d: "dseg s None (cells L (pre @ a # rest)) None"
    and sz: "list_size L = length (pre @ a # rest)"
    and vs: "map (read_data s) (pre @ a # rest) = map Some xs"
    by (auto elim!: reprE)
  have d1: "dseg s1 None (cells L (pre @ a # rest)) None" using d dseg_values_only[OF vo] by simp
  from dseg_distinct[OF d] have na: "a \<notin> set pre" "a \<notin> set rest" by (auto simp: cells_def)
  have lx: "length xs = length (pre @ a # rest)" using r by (rule repr_length)
  have rd: "read_data s1 b = (if b = a then Some v else read_data s b)" for b
    using al by (simp add: s1_def)
  from map_split_take_drop[OF vs]
  have v1: "map (read_data s) pre = map Some (take (length pre) xs)"
    and v2: "map (read_data s) ([a] @ rest) = map Some (drop (length pre) xs)" by simp_all
  from map_split_take_drop[OF v2]
  have v3: "map (read_data s) rest = map Some (drop (Suc (length pre)) xs)" by simp
  have "map (read_data s1) pre = map (read_data s) pre" "map (read_data s1) rest = map (read_data s) rest"
    using na by (auto simp: rd)
  with v1 v3 have "map (read_data s1) (pre @ a # rest)
      = map Some (take (length pre) xs @ v # drop (Suc (length pre)) xs)"
    by (simp add: rd)
  also have "take (length pre) xs @ v # drop (Suc (length pre)) xs = xs[length pre := v]"
    using lx by (simp add: upd_conv_take_nth_drop)
  finally have vs1: "map (read_data s1) (pre @ a # rest) = map Some (xs[length pre := v])" .
  have "repr s1 l (pre @ a # rest) (xs[length pre := v])"
    using o1 d1 sz vs1 by (rule reprI)
  with w vo o1 show ?thesis by blast
qed

lemma sort_fill_spec:
  assumes "repr s l (pre @ rest) xs" and "obj_at s l = Some L" and "length arr = length xs"
  shows "sort_fill s l \<lparr>current = Some (hd (rest @ [tail L])), container = Some l\<rparr> arr (length pre)
           = Some (Inr (take (length pre) arr @ map Some (drop (length pre) xs)))"
  using assms
proof (induction rest arbitrary: pre arr)
  case Nil
  from repr_length[OF Nil(1)] Nil(3) begin_at(3)[OF Nil(1,2)] show ?case
    by (subst sort_fill.simps) (simp add: iter_neq_def)
next
  case (Cons a rest)
  let ?it = "\<lparr>current = Some a, container = Some l\<rparr>"
  note r = Cons.prems(1) and o = Cons.prems(2)
  have lx: "length xs = length (pre @ a # rest)" using r by (rule repr_length)
  from repr_node[OF r o] have at: "a \<noteq> tail L" by blast
  have en: "end_list s l = Some \<lparr>current = Some (tail L), container = Some l\<rparr>"
    using begin_at(3)[OF r o] .
  have da: "iter_deref s ?it = Some (Inr a)" "read_data s a = Some (xs ! length pre)"
    using deref_at(1,3)[OF r o, of ?it] by simp_all
  have i1: "iter_preinc s ?it = Some (Inr \<lparr>current = Some (hd (rest @ [tail L])), container = Some l\<rparr>,
                                        \<lparr>current = Some (hd (rest @ [tail L])), container = Some l\<rparr>)"
    using inc_at(1)[OF r o, of ?it] by simp
  from r have r2: "repr s l ((pre @ [a]) @ rest) xs" by simp
  have la: "length (arr[length pre := Some (xs ! length pre)]) = length xs" using Cons.prems(3) by simp
  have il: "length pre < length arr" using lx Cons.prems(3) by simp
  have "sort_fill s l ?it arr (length pre)
      = sort_fill s l \<lparr>current = Some (hd (rest @ [tail L])), container = Some l\<rparr>
          (arr[length pre := Some (xs ! length pre)]) (length (pre @ [a]))"
    using en at da i1 il by (subst sort_fill.simps) (simp add: iter_neq_def)
  also have "\<dots> = Some (Inr (take (length (pre @ [a])) (arr[length pre := Some (xs ! length pre)])
                              @ map Some (drop (length (pre @ [a])) xs)))"
    using Cons.IH[OF r2 o la] .
  also have "take (length (pre @ [a])) (arr[length pre := Some (xs ! length pre)])
                @ map Some (drop (length (pre @ [a])) xs)
             = take (length pre) arr @ map Some (drop (length pre) xs)"
    using il lx by (simp add: take_Suc_conv_app_nth Cons_nth_drop_Suc[symmetric])
  finally show ?case by simp
qed

lemma sort_store_spec:
  assumes "repr s l (pre @ rest) xs" and "obj_at s l = Some L"
    and "length junk = length pre" and "length ys = length rest"
  shows "\<exists>s'. sort_store s l \<lparr>current = Some (hd (rest @ [tail L])), container = Some l\<rparr>
                  (junk @ map Some ys) (length pre) = Some (Inr (), s')
           \<and> repr s' l (pre @ rest) (take (length pre) xs @ ys) \<and> values_only s s' (set rest)"
  using assms
proof (induction rest arbitrary: s pre xs junk ys)
  case Nil
  from repr_length[OF Nil(1)] Nil begin_at(3)[OF Nil(1,2)] show ?case
    by (subst sort_store.simps) (simp add: iter_neq_def values_only_refl)
next
  case (Cons a rest)
  let ?it = "\<lparr>current = Some a, container = Some l\<rparr>"
  let ?nx = "\<lparr>current = Some (hd (rest @ [tail L])), container = Some l\<rparr>"
  note r = Cons.prems(1) and o = Cons.prems(2)
  from Cons.prems(4) obtain y ys' where ys: "ys = y # ys'" "length ys' = length rest"
    by (cases ys) auto
  have lx: "length xs = length (pre @ a # rest)" using r by (rule repr_length)
  from repr_node[OF r o] have at: "a \<noteq> tail L" by blast
  have en: "end_list s l = Some \<lparr>current = Some (tail L), container = Some l\<rparr>"
    using begin_at(3)[OF r o] .
  have da: "iter_deref s ?it = Some (Inr a)" using deref_at(1)[OF r o, of ?it] by simp
  from write_data_at[OF r o, of y] obtain s1 where
    s1: "write_data s a y = Some s1" "repr s1 l (pre @ a # rest) (xs[length pre := y])"
    "values_only s s1 {a}" "obj_at s1 l = Some L" by blast
  have i1: "iter_preinc s1 ?it = Some (Inr ?nx, ?nx)"
    using inc_at(1)[OF s1(2) s1(4), of ?it] by simp
  have ar: "(junk @ map Some ys) ! length pre = Some y" "length pre < length (junk @ map Some ys)"
    "(junk @ map Some ys)[length pre := None] = (junk @ [None]) @ map Some ys'"
    using Cons.prems(3) by (simp_all add: ys nth_append list_update_append)
  from s1(2) have r2: "repr s1 l ((pre @ [a]) @ rest) (xs[length pre := y])" by simp
  have lj: "length (junk @ [None]) = length (pre @ [a])" using Cons.prems(3) by simp
  from Cons.IH[OF r2 s1(4) lj ys(2)] obtain s' where
    s': "sort_store s1 l ?nx ((junk @ [None]) @ map Some ys') (length (pre @ [a])) = Some (Inr (), s')"
    "repr s' l ((pre @ [a]) @ rest) (take (length (pre @ [a])) (xs[length pre := y]) @ ys')"
    "values_only s1 s' (set rest)" by blast
  have "sort_store s l ?it (junk @ map Some ys) (length pre)
      = sort_store s1 l ?nx ((junk @ [None]) @ map Some ys') (length (pre @ [a]))"
    using en at da s1(1) i1 ar by (subst sort_store.simps) (simp add: iter_neq_def)
  moreover have "take (length (pre @ [a])) (xs[length pre := y]) @ ys' = take (length pre) xs @ ys"
    using lx by (simp add: ys take_Suc_conv_app_nth)
  moreover from values_only_trans[OF s1(3) s'(3)] have "values_only s s' (set (a # rest))" by simp
  ultimately show ?case using s' by simp
qed

lemma those_map_Some [simp]: "those (map Some xs) = Some xs"
  by (induction xs) simp_all

lemma sort_list_spec:
  assumes r: "repr s l as xs" and len: "length (ext_sort (\<lambda>a b. a < b) xs) = length xs"
  shows "\<exists>s'. sort_list ext_sort s l = Some (Inr (), s')
           \<and> repr s' l as (if length as \<le> 1 then xs else ext_sort (\<lambda>a b. a < b) xs)
           \<and> values_only s s' (set as)"
proof (cases "length as \<le> 1")
  case True
  with repr_size_list[OF r] r show ?thesis by (simp add: sort_list_def values_only_refl)
next
  case False
  from r obtain L where o: "obj_at s l = Some L" by (auto elim: reprE)
  have lx: "length xs = length as" using r by (rule repr_length)
  let ?it = "\<lparr>current = Some (hd (as @ [tail L])), container = Some l\<rparr>"
  let ?ys = "ext_sort (\<lambda>a b. a < b) xs"
  from r have r0: "repr s l ([] @ as) xs" by simp
  have b: "begin_list s l = Some ?it" using begin_at(1)[OF r o] .
  have f: "sort_fill s l ?it (replicate (length as) None) 0 = Some (Inr (map Some xs))"
    using sort_fill_spec[OF r0 o, of "replicate (length as) None"] lx by simp
  from sort_store_spec[OF r0 o, of "[]" ?ys] len lx obtain s' where
    s': "sort_store s l ?it (map Some ?ys) 0 = Some (Inr (), s')" "repr s' l as ?ys"
    "values_only s s' (set as)" by auto
  have "sort_list ext_sort s l = Some (Inr (), s')"
    using False repr_size_list[OF r] b f s'(1) by (simp add: sort_list_def Let_def)
  with s' False show ?thesis by simp
qed

lemma sorted_mset_unique:
  "sorted (xs :: 'a::linorder list) \<Longrightarrow> sorted ys \<Longrightarrow> mset xs = mset ys \<Longrightarrow> xs = ys"
  by (metis properties_for_sort)

lemma sorted_short: "length (xs :: 'a::linorder list) \<le> 1 \<Longrightarrow> sorted xs"
  by (cases xs) auto

lemma repr_same_values_state:
  assumes r: "repr s l as xs" and r': "repr s' l as xs" and vo: "values_only s s' (set as)"
  shows "s' = s"
proof (rule state_eqI)
  show "length (nodes s') = length (nodes s)" using vo by (simp add: values_only_def)
  show "objs s' = objs s" using vo by (simp add: values_only_def)
  from r obtain L where o: "obj_at s l = Some L" and d: "dseg s None (cells L as) None"
    and vs: "map (read_data s) as = map Some xs" by (auto elim: reprE)
  from r' o obj_at_values_only[OF vo] have vs': "map (read_data s') as = map Some xs"
    by (auto elim!: reprE)
  have d': "dseg s' None (cells L as) None" using d dseg_values_only[OF vo] by simp
  show "node_at s' b = node_at s b" for b
  proof (cases "b \<in> set as")
    case True
    from vs vs' have "map (read_data s') as = map (read_data s) as" by simp
    with True have "read_data s' b = read_data s b" by simp
    moreover from True have "b \<in> set (cells L as)" by (simp add: cells_def)
    ultimately show ?thesis using d d' by (intro dseg_same_nodes[of s None "cells L as" None s' b])
  next
    case False
    with vo show ?thesis by (simp add: values_only_def)
  qed
qed

lemma ex_five_repr: "repr ex_five 0 [2, 3, 4, 5, 6] [5, 1, 4, 2, 3]"
  by (simp add: repr_def obj_at_def ex_five_def cells_def links_def node_at_def read_data_def)

lemma ex_five_built:
  "do { s1 \<leftarrow> push_back ex_empty 0 5; s2 \<leftarrow> push_back s1 0 1; s3 \<leftarrow> push_back s2 0 4;
        s4 \<leftarrow> push_back s3 0 2; push_back s4 0 3 } = Some ex_five"
  by (simp add: push_back_def new_node_def alloc_cell_def insert_node_def obj_at_def deref_def
      node_at_def set_prev_def set_next_def put_node_def put_obj_def size_incr_def
      ex_empty_def ex_five_def)

lemma sep_sym: "sep s l as k bs \<Longrightarrow> sep s k bs l as"
  by (auto simp: sep_def split: option.splits)

lemma repr_frame:
  assumes r: "repr s k bs ys" and o: "obj_at s k = Some K" and f: "frame s s' l A" and ne: "k \<noteq> l"
    and dj: "set (cells K bs) \<inter> A = {}"
  shows "repr s' k bs ys"
proof -
  from r o have d: "dseg s None (cells K bs) None" and sz: "list_size K = length bs"
    and vs: "map (read_data s) bs = map Some ys" by (auto elim!: reprE)
  have o': "obj_at s' k = Some K" using f ne o by (simp add: frame_def)
  have same: "node_at s' b = node_at s b" if "b \<in> set (cells K bs)" for b
    using that cells_in_range[OF d that] f dj by (auto simp: frame_def)
  have d': "dseg s' None (cells K bs) None" using d dseg_cong[of "cells K bs" s' s None None] same by simp
  have "map (read_data s') bs = map (read_data s) bs"
    using same by (auto simp: read_data_def cells_def)
  with vs have vs': "map (read_data s') bs = map Some ys" by simp
  from o' d' sz vs' show ?thesis by (rule reprI)
qed

lemma repr_upd_other:
  assumes r: "repr s k bs ys" and u: "upd_ok s l as s' as'" and ne: "k \<noteq> l" and sp: "sep s l as k bs"
  shows "repr s' k bs ys \<and> sep s' l as' k bs"
proof -
  from u obtain L L' where L: "obj_at s l = Some L" "obj_at s' l = Some L'"
    "frame s s' l (set (cells L as))"
    "\<forall>b\<in>set (cells L' as'). b < length (nodes s) \<longrightarrow> b \<in> set (cells L as)"
    unfolding upd_ok_def by blast
  from r obtain K where K: "obj_at s k = Some K" "dseg s None (cells K bs) None" by (auto elim: reprE)
  from sp L(1) K(1) have dj: "set (cells K bs) \<inter> set (cells L as) = {}" by (auto simp: sep_def)
  have r': "repr s' k bs ys" using r K(1) L(3) ne dj by (rule repr_frame)
  have o': "obj_at s' k = Some K" using L(3) ne K(1) by (simp add: frame_def)
  have "set (cells L' as') \<inter> set (cells K bs) = {}"
    using L(4) dj cells_in_range[OF K(2)] by blast
  with L(2) o' have "sep s' l as' k bs" by (simp add: sep_def)
  with r' show ?thesis by simp
qed

lemma clear_spec:
  assumes "repr s l as xs"
  shows "\<exists>s'. clear s l = Some (Inr (), s') \<and> repr s' l [] [] \<and> upd_ok s l as s' []
           \<and> length (nodes s') = length (nodes s)"
  using assms
proof (induction as arbitrary: s xs)
  case Nil
  from Nil obtain L where "obj_at s l = Some L" by (auto elim: reprE)
  moreover from repr_length[OF Nil] have "xs = []" by simp
  ultimately show ?case using Nil repr_empty_list[OF Nil]
    by (subst clear.simps) (simp add: upd_ok_refl)
next
  case (Cons a as)
  from pop_front_spec[OF Cons.prems] obtain s1 where
    s1: "pop_front s l = Some (Inr (), s1)" "repr s1 l as (tl xs)" "upd_ok s l (a # as) s1 as"
    "length (nodes s1) = length (nodes s)" by blast
  from Cons.IH[OF s1(2)] obtain s' where
    s': "clear s1 l = Some (Inr (), s')" "repr s' l [] []" "upd_ok s1 l as s' []"
    "length (nodes s') = length (nodes s1)" by blast
  have "clear s l = clear s1 l"
    using repr_empty_list[OF Cons.prems] s1(1) by (subst clear.simps) simp
  with s' s1 upd_ok_trans[OF s1(3) s'(3)] show ?case by simp
qed

lemma list_ctor_spec:
  "\<exists>s'. list_ctor s = Some (length (objs s), s') \<and> repr s' (length (objs s)) [] []
     \<and> length (objs s') = Suc (length (objs s))
     \<and> (\<forall>k. k < length (objs s) \<longrightarrow> obj_at s' k = obj_at s k)
     \<and> length (nodes s') = Suc (Suc (length (nodes s)))
     \<and> (\<forall>b. b < length (nodes s) \<longrightarrow> node_at s' b = node_at s b)
     \<and> obj_at s' (length (objs s))
         = Some \<lparr>head = length (nodes s), tail = Suc (length (nodes s)), list_size = 0\<rparr>"
  by (simp add: list_ctor_def new_raw_def alloc_cell_def set_prev_def set_next_def node_at_def
      put_node_def raw_node_def repr_def obj_at_def cells_def links_def nth_append read_data_def)

subsection \<open>Copying a container\<close>

lemma copy_loop_spec:
  assumes "repr s l as xs" and "repr s k (bpre @ brest) ys" and "l \<noteq> k"
    and "sep s l as k (bpre @ brest)" and "obj_at s k = Some K"
  shows "\<exists>s' new. copy_loop s l k \<lparr>current = Some (hd (brest @ [tail K])), container = Some k\<rparr>
                      = Some (Inr (), s')
           \<and> repr s' l (as @ new) (xs @ drop (length bpre) ys) \<and> repr s' k (bpre @ brest) ys
           \<and> sep s' l (as @ new) k (bpre @ brest) \<and> upd_ok s l as s' (as @ new)
           \<and> (\<forall>a\<in>set new. length (nodes s) \<le> a)"
  using assms
proof (induction brest arbitrary: s as xs bpre)
  case Nil
  from Nil(1) obtain L where "obj_at s l = Some L" by (auto elim: reprE)
  with repr_length[OF Nil(2)] begin_at(4)[OF Nil(2,5)] Nil show ?case
    by (subst copy_loop.simps) (auto simp: citer_neq_def upd_ok_refl intro!: exI[of _ "[]"])
next
  case (Cons b brest)
  let ?it = "\<lparr>current = Some b, container = Some k\<rparr>"
  let ?nx = "\<lparr>current = Some (hd (brest @ [tail K])), container = Some k\<rparr>"
  note rl = Cons.prems(1) and rk = Cons.prems(2) and ne = Cons.prems(3) and sp = Cons.prems(4)
    and ok = Cons.prems(5)
  have ly: "length ys = length (bpre @ b # brest)" using rk by (rule repr_length)
  from repr_node[OF rk ok] have bt: "b \<noteq> tail K" by blast
  have en: "cend s k = Some \<lparr>current = Some (tail K), container = Some k\<rparr>"
    using begin_at(4)[OF rk ok] .
  have db: "citer_deref s ?it = Some (Inr b)" "read_data s b = Some (ys ! length bpre)"
    using deref_at(2,3)[OF rk ok, of ?it] by simp_all
  from push_back_spec[OF rl, of "ys ! length bpre"] obtain s1 where
    s1: "push_back s l (ys ! length bpre) = Some s1"
    "repr s1 l (as @ [length (nodes s)]) (xs @ [ys ! length bpre])"
    "upd_ok s l as s1 (as @ [length (nodes s)])" "length (nodes s1) = Suc (length (nodes s))"
    by blast
  from repr_upd_other[OF rk s1(3) ne[symmetric] sp]
  have rk1: "repr s1 k (bpre @ b # brest) ys"
    and sp1: "sep s1 l (as @ [length (nodes s)]) k (bpre @ b # brest)" by simp_all
  have ok1: "obj_at s1 k = Some K" using s1(3) ok ne by (auto simp: upd_ok_def frame_def)
  have i1: "citer_preinc s1 ?it = Some (Inr ?nx, ?nx)"
    using inc_at(2)[OF rk1 ok1, of ?it] by simp
  from rk1 have rk2: "repr s1 k ((bpre @ [b]) @ brest) ys" by simp
  from sp1 have sp2: "sep s1 l (as @ [length (nodes s)]) k ((bpre @ [b]) @ brest)" by simp
  from Cons.IH[OF s1(2) rk2 ne sp2 ok1] obtain s' new where
    s': "copy_loop s1 l k ?nx = Some (Inr (), s')"
    "repr s' l ((as @ [length (nodes s)]) @ new) ((xs @ [ys ! length bpre]) @ drop (length (bpre @ [b])) ys)"
    "repr s' k ((bpre @ [b]) @ brest) ys"
    "sep s' l ((as @ [length (nodes s)]) @ new) k ((bpre @ [b]) @ brest)"
    "upd_ok s1 l (as @ [length (nodes s)]) s' ((as @ [length (nodes s)]) @ new)"
    "\<forall>a\<in>set new. length (nodes s1) \<le> a"
    by blast
  have step: "copy_loop s l k ?it = copy_loop s1 l k ?nx"
    using en bt db s1(1) i1 by (subst copy_loop.simps) (simp add: citer_neq_def)
  have vals: "(xs @ [ys ! length bpre]) @ drop (length (bpre @ [b])) ys = xs @ drop (length bpre) ys"
    using ly by (simp add: Cons_nth_drop_Suc)
  have fresh: "\<forall>a\<in>set (length (nodes s) # new). length (nodes s) \<le> a"
    using s'(6) s1(4) by auto
  from upd_ok_trans[OF s1(3) s'(5)]
  have u: "upd_ok s l as s' (as @ length (nodes s) # new)" by simp
  show ?case
    apply (rule exI[of _ s'], rule exI[of _ "length (nodes s) # new"])
    using step s' vals fresh u by simp
qed

lemma list_copy_ctor_spec:
  assumes rk: "repr s k bs ys"
  shows "\<exists>s' new. list_copy_ctor s k = Some (Inr (length (objs s)), s')
           \<and> repr s' (length (objs s)) new ys \<and> repr s' k bs ys
           \<and> sep s' (length (objs s)) new k bs \<and> (\<forall>a\<in>set new. length (nodes s) \<le> a)"
proof -
  let ?l = "length (objs s)"
  from rk obtain K where ok: "obj_at s k = Some K" and dk: "dseg s None (cells K bs) None"
    and sz: "list_size K = length bs" and vs: "map (read_data s) bs = map Some ys"
    by (auto elim: reprE)
  have kl: "k < ?l" using ok by (rule obj_at_Some_less)
  from list_ctor_spec[of s] obtain s1 where
    s1: "list_ctor s = Some (?l, s1)" "repr s1 ?l [] []"
    "\<forall>j. j < length (objs s) \<longrightarrow> obj_at s1 j = obj_at s j"
    "length (nodes s1) = Suc (Suc (length (nodes s)))"
    "\<forall>b. b < length (nodes s) \<longrightarrow> node_at s1 b = node_at s b"
    "obj_at s1 ?l = Some \<lparr>head = length (nodes s), tail = Suc (length (nodes s)), list_size = 0\<rparr>"
    by blast
  have ok1: "obj_at s1 k = Some K" using s1(3) kl ok by simp
  have same: "node_at s1 b = node_at s b" if "b \<in> set (cells K bs)" for b
    using cells_in_range[OF dk that] s1(5) by simp
  have dk1: "dseg s1 None (cells K bs) None"
    using dk dseg_cong[of "cells K bs" s1 s None None] same by simp
  have "map (read_data s1) bs = map (read_data s) bs"
    using same by (auto simp: read_data_def cells_def)
  with vs have "map (read_data s1) bs = map Some ys" by simp
  with ok1 dk1 sz have rk1: "repr s1 k ([] @ bs) ys" by (simp add: reprI)
  have ne: "?l \<noteq> k" using kl by simp
  have sp1: "sep s1 ?l [] k ([] @ bs)"
    using s1(6) ok1 cells_in_range[OF dk] by (fastforce simp: sep_def cells_def)
  have cb: "cbegin s1 k = Some \<lparr>current = Some (hd (bs @ [tail K])), container = Some k\<rparr>"
    using begin_at(2)[OF rk1 ok1] by simp
  from copy_loop_spec[OF s1(2) rk1 ne sp1 ok1] obtain s' new where
    s': "copy_loop s1 ?l k \<lparr>current = Some (hd (bs @ [tail K])), container = Some k\<rparr> = Some (Inr (), s')"
    "repr s' ?l ([] @ new) ([] @ drop (length ([] :: nat list)) ys)" "repr s' k ([] @ bs) ys"
    "sep s' ?l ([] @ new) k ([] @ bs)" "\<forall>a\<in>set new. length (nodes s1) \<le> a"
    by blast
  have "list_copy_ctor s k = Some (Inr ?l, s')"
    using s1(1) cb s'(1) by (simp add: list_copy_ctor_def)
  moreover have "\<forall>a\<in>set new. length (nodes s) \<le> a" using s'(5) s1(4) by auto
  ultimately show ?thesis using s'(2,3,4) by auto
qed

lemma assign_spec:
  assumes rl: "repr s l as xs" and rk: "repr s k bs ys" and ne: "l \<noteq> k" and sp: "sep s l as k bs"
  shows "\<exists>s' new. assign s l k = Some (Inr l, s') \<and> repr s' l new ys \<and> repr s' k bs ys
           \<and> sep s' l new k bs \<and> upd_ok s l as s' new"
proof -
  from rk obtain K where ok: "obj_at s k = Some K" by (auto elim: reprE)
  from clear_spec[OF rl] obtain s1 where
    s1: "clear s l = Some (Inr (), s1)" "repr s1 l [] []" "upd_ok s l as s1 []" by blast
  from repr_upd_other[OF rk s1(3) ne[symmetric] sp]
  have rk1: "repr s1 k ([] @ bs) ys" and sp1: "sep s1 l [] k ([] @ bs)" by simp_all
  have ok1: "obj_at s1 k = Some K" using s1(3) ok ne by (auto simp: upd_ok_def frame_def)
  have cb: "cbegin s1 k = Some \<lparr>current = Some (hd (bs @ [tail K])), container = Some k\<rparr>"
    using begin_at(2)[OF rk1 ok1] by simp
  from copy_loop_spec[OF s1(2) rk1 ne sp1 ok1] obtain s' new where
    s': "copy_loop s1 l k \<lparr>current = Some (hd (bs @ [tail K])), container = Some k\<rparr> = Some (Inr (), s')"
    "repr s' l ([] @ new) ([] @ drop (length ([] :: nat list)) ys)" "repr s' k ([] @ bs) ys"
    "sep s' l ([] @ new) k ([] @ bs)" "upd_ok s1 l [] s' ([] @ new)"
    by blast
  have "assign s l k = Some (Inr l, s')"
    using ne s1(1) cb s'(1) by (simp add: assign_def)
  moreover from upd_ok_trans[OF s1(3) s'(5)] have "upd_ok s l as s' new" by simp
  ultimately show ?thesis using s'(2,3,4) by auto
qed

subsection \<open>Merging\<close>

lemma obj_at_list_update:
  "objs s' = (objs s)[l := L'] \<Longrightarrow> obj_at s' j = (if j = l \<and> l < length (objs s) then Some L' else obj_at s j)"
  by (auto simp: obj_at_def)

lemma move_node:
  assumes dl: "dseg s None (us @ q # ys) None" and une: "us \<noteq> []"
    and dk: "dseg s None (hk # b # rb) None" and rne: "rb \<noteq> []"
    and dj: "set (us @ q # ys) \<inter> set (hk # b # rb) = {}"
    and ol: "obj_at s l = Some L" and ok: "obj_at s k = Some K" and ne: "l \<noteq> k"
    and pos: "0 < list_size K"
  shows "\<exists>s1 s2. erase_node s k (Some b) = Some (Some b, s1) \<and> obj_at s1 l = Some L
           \<and> insert_node s1 l (Some q) (Some b) = Some (Some b, s2)
           \<and> dseg s2 None (us @ b # q # ys) None \<and> dseg s2 None (hk # rb) None
           \<and> obj_at s2 l = Some (L\<lparr>list_size := list_size L + 1\<rparr>)
           \<and> obj_at s2 k = Some (K\<lparr>list_size := list_size K - 1\<rparr>)
           \<and> links_only s s2 (set (us @ q # ys) \<union> set (hk # b # rb))
           \<and> length (objs s2) = length (objs s)
           \<and> (\<forall>j. j \<noteq> l \<and> j \<noteq> k \<longrightarrow> obj_at s2 j = obj_at s j)"
proof -
  from dk have dk0: "dseg s None ([hk] @ b # rb) None" by simp
  from dseg_distinct[OF dk] have distk: "distinct (hk # b # rb)" .
  have kl: "k < length (objs s)" "l < length (objs s)"
    using ok ol by (auto dest: obj_at_Some_less)
  from erase_node_mid[OF dk0 _ rne ok] obtain s1 where
    e: "erase_node s k (Some b) = Some (Some b, s1)"
    and dk1: "dseg s1 None ([hk] @ rb) None"
    and lo1: "links_only s s1 {last [hk], hd rb}"
    and ob1: "objs s1 = (objs s)[k := K\<lparr>list_size := size_pred (list_size K)\<rparr>]"
    by auto
  have sp: "size_pred (list_size K) = list_size K - 1" using pos by (simp add: size_pred_def)
  have hr: "hd rb \<in> set rb" using rne by simp
  have same1: "node_at s1 c = node_at s c" if "c \<in> set (us @ q # ys)" for c
  proof -
    from that dj hr have "c \<noteq> hk" "c \<noteq> hd rb" by auto
    then show ?thesis using lo1 by (simp add: links_only_def)
  qed
  have dl1: "dseg s1 None (us @ q # ys) None"
    using dl dseg_cong[of "us @ q # ys" s1 s None None] same1 by simp
  have "node_at s b \<noteq> None" using dk by (auto simp: links_def split: option.splits)
  then have "node_at s1 b \<noteq> None" using lo1 by (simp add: links_only_def)
  then obtain bn where bn: "node_at s1 b = Some bn" by blast
  have nb: "b \<notin> set (us @ q # ys)" using dj by auto
  have ol1: "obj_at s1 l = Some L" using ol ne by (simp add: obj_at_list_update[OF ob1])
  from insert_node_mid[OF dl1 une bn nb ol1] obtain s2 where
    i: "insert_node s1 l (Some q) (Some b) = Some (Some b, s2)"
    and dl2: "dseg s2 None (us @ b # q # ys) None"
    and lo2: "links_only s1 s2 {last us, b, q}"
    and ob2: "objs s2 = (objs s1)[l := L\<lparr>list_size := list_size L + 1\<rparr>]"
    by blast
  have lu: "last us \<in> set us" using une by simp
  have same2: "node_at s2 c = node_at s1 c" if "c \<in> set (hk # rb)" for c
  proof -
    from that dj lu have "c \<noteq> last us" "c \<noteq> q" by auto
    moreover from that distk have "c \<noteq> b" by auto
    ultimately show ?thesis using lo2 by (simp add: links_only_def)
  qed
  have dk2: "dseg s2 None (hk # rb) None"
    using dk1 dseg_cong[of "hk # rb" s2 s1 None None] same2 by simp
  have ol2: "obj_at s2 l = Some (L\<lparr>list_size := list_size L + 1\<rparr>)"
    using kl by (simp add: obj_at_list_update[OF ob2] ob1)
  have ok2: "obj_at s2 k = Some (K\<lparr>list_size := list_size K - 1\<rparr>)"
    using kl ne sp by (simp add: obj_at_list_update[OF ob2] obj_at_list_update[OF ob1])
  have oth: "\<forall>j. j \<noteq> l \<and> j \<noteq> k \<longrightarrow> obj_at s2 j = obj_at s j"
    by (simp add: obj_at_list_update[OF ob2] obj_at_list_update[OF ob1])
  have len: "length (objs s2) = length (objs s)" by (simp add: ob2 ob1)
  have "{last [hk], hd rb} \<union> {last us, b, q} \<subseteq> set (us @ q # ys) \<union> set (hk # b # rb)"
    using lu hr by auto
  with links_only_trans[OF lo1 lo2]
  have lo: "links_only s s2 (set (us @ q # ys) \<union> set (hk # b # rb))"
    by (rule links_only_mono)
  from e ol1 i dl2 dk2 ol2 ok2 lo len oth show ?thesis by blast
qed

lemma cells_update_size [simp]: "cells (L\<lparr>list_size := n\<rparr>) as = cells L as"
  by (simp add: cells_def)

lemma mdone_step:
  assumes m: "mdone s2 s' l k (L\<lparr>list_size := list_size L + 1\<rparr>) (K\<lparr>list_size := list_size K - 1\<rparr>)
                as2 rb as'"
    and lo: "links_only s s2 A" and sub: "A \<union> set (cells L as2) \<union> set (cells K rb) \<subseteq> B"
    and len: "length (objs s2) = length (objs s)"
    and oth: "\<forall>j. j \<noteq> l \<and> j \<noteq> k \<longrightarrow> obj_at s2 j = obj_at s j"
  shows "dseg s' None (cells L as') None \<and> dseg s' None (cells K []) None
      \<and> obj_at s' l = Some (L\<lparr>list_size := list_size L + Suc (length rb)\<rparr>)
      \<and> obj_at s' k = Some (K\<lparr>list_size := 0\<rparr>)
      \<and> links_only s s' B
      \<and> length (objs s') = length (objs s)
      \<and> (\<forall>j. j \<noteq> l \<and> j \<noteq> k \<longrightarrow> obj_at s' j = obj_at s j)"
proof -
  from m have lo2: "links_only s2 s' (set (cells L as2) \<union> set (cells K rb))"
    by (simp add: mdone_def)
  from links_only_trans[OF lo lo2] sub have "links_only s s' B"
    by (auto intro: links_only_mono)
  with m len oth show ?thesis by (simp add: mdone_def)
qed

lemma merge_loop2_spec:
  assumes "mstate s l k L K as rb"
  shows "\<exists>s'. merge_loop2 s l k (Some (hd (rb @ [tail K]))) = Some s'
           \<and> mdone s s' l k L K as rb (as @ rb)"
  using assms
proof (induction rb arbitrary: s as L K)
  case Nil
  then have "K\<lparr>list_size := 0\<rparr> = K" by (simp add: mstate_def)
  with Nil show ?case
    by (subst merge_loop2.simps) (simp add: mstate_def mdone_def links_only_refl)
next
  case (Cons b rb)
  from Cons.prems have ol: "obj_at s l = Some L" and ok: "obj_at s k = Some K" and ne: "l \<noteq> k"
    and dl: "dseg s None ((head L # as) @ tail L # []) None"
    and dk: "dseg s None (head K # b # (rb @ [tail K])) None"
    and dj: "set ((head L # as) @ tail L # []) \<inter> set (head K # b # (rb @ [tail K])) = {}"
    and sz: "list_size K = Suc (length rb)"
    by (simp_all add: mstate_def cells_def)
  from dseg_distinct[OF dk] have bt: "b \<noteq> tail K" by auto
  from dk have "links s b (Some (head K)) (Some (hd (rb @ [tail K])))"
    by (cases rb) simp_all
  then obtain bn where bn: "node_at s b = Some bn" "next bn = Some (hd (rb @ [tail K]))"
    by (rule linksE)
  from move_node[OF dl _ dk _ dj ol ok ne] sz obtain s1 s2 where
    mv: "erase_node s k (Some b) = Some (Some b, s1)" "obj_at s1 l = Some L"
    "insert_node s1 l (Some (tail L)) (Some b) = Some (Some b, s2)"
    "dseg s2 None ((head L # as) @ b # tail L # []) None"
    "dseg s2 None (head K # (rb @ [tail K])) None"
    "obj_at s2 l = Some (L\<lparr>list_size := list_size L + 1\<rparr>)"
    "obj_at s2 k = Some (K\<lparr>list_size := list_size K - 1\<rparr>)"
    "links_only s s2 (set ((head L # as) @ tail L # []) \<union> set (head K # b # (rb @ [tail K])))"
    "length (objs s2) = length (objs s)"
    "\<forall>j. j \<noteq> l \<and> j \<noteq> k \<longrightarrow> obj_at s2 j = obj_at s j"
    by auto
  from dseg_distinct[OF dk] dj
  have dj2: "set (cells L (as @ [b])) \<inter> set (cells K rb) = {}"
    by (auto simp: cells_def)
  have ms2: "mstate s2 l k (L\<lparr>list_size := list_size L + 1\<rparr>) (K\<lparr>list_size := list_size K - 1\<rparr>)
               (as @ [b]) rb"
    using mv(4-7) ne dj2 sz by (simp add: mstate_def cells_def)
  from Cons.IH[OF ms2] obtain s' where
    s': "merge_loop2 s2 l k (Some (hd (rb @ [tail K]))) = Some s'"
    "mdone s2 s' l k (L\<lparr>list_size := list_size L + 1\<rparr>) (K\<lparr>list_size := list_size K - 1\<rparr>)
       (as @ [b]) rb ((as @ [b]) @ rb)"
    by auto
  have step: "merge_loop2 s l k (Some b) = merge_loop2 s2 l k (Some (hd (rb @ [tail K])))"
    using ok bt bn mv(1-3) by (subst merge_loop2.simps) (simp add: deref_def)
  have sub: "(set ((head L # as) @ tail L # []) \<union> set (head K # b # (rb @ [tail K])))
        \<union> set (cells L (as @ [b])) \<union> set (cells K rb) \<subseteq> set (cells L as) \<union> set (cells K (b # rb))"
    by (auto simp: cells_def)
  from mdone_step[OF s'(2) mv(8) sub mv(9,10)] step s'(1)
  show ?case by (simp add: mdone_def)
qed

lemma links_only_read_data: "links_only s s' A \<Longrightarrow> read_data s' = read_data s"
  by (auto simp: links_only_def)

lemma merge_loops_spec:
  assumes "mstate s l k L K (pre @ map fst za) (map fst zb)"
    and "map (read_data s) (map fst za) = map (\<lambda>z. Some (snd z)) za"
    and "map (read_data s) (map fst zb) = map (\<lambda>z. Some (snd z)) zb"
  shows "\<exists>s1 ptr s'. merge_loop1 s l k (Some (hd (map fst za @ [tail L])))
                        (Some (hd (map fst zb @ [tail K]))) = Some (ptr, s1)
           \<and> merge_loop2 s1 l k ptr = Some s'
           \<and> mdone s s' l k L K (pre @ map fst za) (map fst zb) (pre @ map fst (merge_pairs za zb))"
  using assms
proof (induction za zb arbitrary: s pre L K rule: merge_pairs.induct)
  case (1 zb)
  from 1(1) have ms: "mstate s l k L K pre (map fst zb)" by simp
  from merge_loop2_spec[OF ms] obtain s' where
    s': "merge_loop2 s l k (Some (hd (map fst zb @ [tail K]))) = Some s'"
    "mdone s s' l k L K pre (map fst zb) (pre @ map fst zb)" by blast
  have "merge_loop1 s l k (Some (tail L)) (Some (hd (map fst zb @ [tail K])))
          = Some (Some (hd (map fst zb @ [tail K])), s)"
    using ms by (subst merge_loop1.simps) (simp add: mstate_def)
  with s' show ?case by simp
next
  case (2 v va)
  from 2(1) have ms: "mstate s l k L K (pre @ map fst (v # va)) []" by simp
  from merge_loop2_spec[OF ms] obtain s' where
    s': "merge_loop2 s l k (Some (tail K)) = Some s'"
    "mdone s s' l k L K (pre @ map fst (v # va)) [] ((pre @ map fst (v # va)) @ [])" by auto
  have "merge_loop1 s l k (Some (hd (map fst (v # va) @ [tail L]))) (Some (tail K))
          = Some (Some (tail K), s)"
    using ms by (subst merge_loop1.simps) (simp add: mstate_def)
  with s' show ?case by simp
next
  case (3 a x za b y zb)
  let ?ra = "map fst za" and ?rb = "map fst zb"
  from "3.prems"(1) have ol: "obj_at s l = Some L" and ok: "obj_at s k = Some K" and ne: "l \<noteq> k"
    and dl: "dseg s None ((head L # pre) @ a # (?ra @ [tail L])) None"
    and dk: "dseg s None (head K # b # (?rb @ [tail K])) None"
    and dj: "set ((head L # pre) @ a # (?ra @ [tail L])) \<inter> set (head K # b # (?rb @ [tail K])) = {}"
    and sz: "list_size K = Suc (length zb)"
    by (simp_all add: mstate_def cells_def)
  from "3.prems"(2,3) have va: "read_data s a = Some x" "map (read_data s) ?ra = map (\<lambda>z. Some (snd z)) za"
    and vb: "read_data s b = Some y" "map (read_data s) ?rb = map (\<lambda>z. Some (snd z)) zb"
    by simp_all
  from dseg_distinct[OF dk] have bt: "b \<noteq> tail K" by auto
  from dseg_distinct[OF dl] have at: "a \<noteq> tail L" by auto
  from dk have "links s b (Some (head K)) (Some (hd (?rb @ [tail K])))"
    by (cases zb) simp_all
  then obtain bn where bn: "node_at s b = Some bn" "next bn = Some (hd (?rb @ [tail K]))"
    by (rule linksE)
  from dseg_mid_links[OF dl] have "links s a (last_or (head L # pre) None) (Some (hd (?ra @ [tail L])))"
    by (cases za) simp_all
  then obtain an where an: "node_at s a = Some an" "next an = Some (hd (?ra @ [tail L]))"
    by (rule linksE)
  from va(1) vb(1) an bn have dat: "data an = Some x" "data bn = Some y"
    by (simp_all add: read_data_def)
  show ?case
  proof (cases "y < x")
    case True
    from move_node[OF dl _ dk _ dj ol ok ne] sz obtain s1 s2 where
      mv: "erase_node s k (Some b) = Some (Some b, s1)" "obj_at s1 l = Some L"
      "insert_node s1 l (Some a) (Some b) = Some (Some b, s2)"
      "dseg s2 None ((head L # pre) @ b # a # (?ra @ [tail L])) None"
      "dseg s2 None (head K # (?rb @ [tail K])) None"
      "obj_at s2 l = Some (L\<lparr>list_size := list_size L + 1\<rparr>)"
      "obj_at s2 k = Some (K\<lparr>list_size := list_size K - 1\<rparr>)"
      "links_only s s2 (set ((head L # pre) @ a # (?ra @ [tail L])) \<union> set (head K # b # (?rb @ [tail K])))"
      "length (objs s2) = length (objs s)"
      "\<forall>j. j \<noteq> l \<and> j \<noteq> k \<longrightarrow> obj_at s2 j = obj_at s j"
      by auto
    let ?L2 = "L\<lparr>list_size := list_size L + 1\<rparr>" and ?K2 = "K\<lparr>list_size := list_size K - 1\<rparr>"
    from dseg_distinct[OF dk] dj
    have dj2: "set (cells L ((pre @ [b]) @ map fst ((a, x) # za))) \<inter> set (cells K ?rb) = {}"
      by (auto simp: cells_def)
    have ms2: "mstate s2 l k ?L2 ?K2 ((pre @ [b]) @ map fst ((a, x) # za)) ?rb"
      using mv(4-7) ne dj2 sz by (simp add: mstate_def cells_def)
    have rd: "read_data s2 = read_data s" using mv(8) by (rule links_only_read_data)
    from "3.IH"(1)[OF True ms2] "3.prems"(2) vb(2) obtain s3 ptr s' where
      s': "merge_loop1 s2 l k (Some a) (Some (hd (?rb @ [tail K]))) = Some (ptr, s3)"
      "merge_loop2 s3 l k ptr = Some s'"
      "mdone s2 s' l k ?L2 ?K2 ((pre @ [b]) @ map fst ((a, x) # za)) ?rb
         ((pre @ [b]) @ map fst (merge_pairs ((a, x) # za) zb))"
      by (auto simp: rd)
    have step: "merge_loop1 s l k (Some a) (Some b)
                  = merge_loop1 s2 l k (Some a) (Some (hd (?rb @ [tail K])))"
      using ol ok at bt an bn dat mv(1-3) True
      by (subst merge_loop1.simps) (simp add: deref_def)
    have sub: "(set ((head L # pre) @ a # (?ra @ [tail L])) \<union> set (head K # b # (?rb @ [tail K])))
        \<union> set (cells L ((pre @ [b]) @ map fst ((a, x) # za))) \<union> set (cells K ?rb)
        \<subseteq> set (cells L (pre @ map fst ((a, x) # za))) \<union> set (cells K (map fst ((b, y) # zb)))"
      by (auto simp: cells_def)
    from mdone_step[OF s'(3) mv(8) sub mv(9,10)] step s'(1,2) True
    show ?thesis by (simp add: mdone_def)
  next
    case False
    from "3.prems"(1) have ms2: "mstate s l k L K ((pre @ [a]) @ ?ra) (map fst ((b, y) # zb))"
      by simp
    from "3.IH"(2)[OF False ms2 va(2) "3.prems"(3)] obtain s1 ptr s' where
      s': "merge_loop1 s l k (Some (hd (?ra @ [tail L]))) (Some (hd (map fst ((b, y) # zb) @ [tail K])))
             = Some (ptr, s1)"
      "merge_loop2 s1 l k ptr = Some s'"
      "mdone s s' l k L K ((pre @ [a]) @ ?ra) (map fst ((b, y) # zb))
         ((pre @ [a]) @ map fst (merge_pairs za ((b, y) # zb)))"
      by blast
    have step: "merge_loop1 s l k (Some a) (Some b)
                  = merge_loop1 s l k (Some (hd (?ra @ [tail L]))) (Some b)"
      using ol ok at bt an bn dat False
      by (subst merge_loop1.simps) (simp add: deref_def)
    from step s' False show ?thesis by simp
  qed
qed

lemma merge_pairs_mset: "mset (merge_pairs za zb) = mset za + mset zb"
  by (induction za zb rule: merge_pairs.induct) auto

lemma merge_pairs_set: "set (merge_pairs za zb) = set za \<union> set zb"
  by (metis merge_pairs_mset set_mset_mset set_mset_union)

lemma merge_pairs_length: "length (merge_pairs za zb) = length za + length zb"
  by (metis merge_pairs_mset size_mset size_union)

lemma merge_pairs_sorted:
  "sorted (map snd za) \<Longrightarrow> sorted (map snd zb)
     \<Longrightarrow> sorted (map snd (merge_pairs za (zb :: (nat \<times> 'a::linorder) list)))"
proof (induction za zb rule: merge_pairs.induct)
  case (3 a x za b y zb)
  show ?case
  proof (cases "y < x")
    case True
    with 3 have "sorted (map snd (merge_pairs ((a, x) # za) zb))" by simp
    moreover have "\<forall>z\<in>set (merge_pairs ((a, x) # za) zb). y \<le> snd z"
      using 3(3,4) True by (auto simp: merge_pairs_set)
    ultimately show ?thesis using True by simp
  next
    case False
    with 3 have "sorted (map snd (merge_pairs za ((b, y) # zb)))" by simp
    moreover have "\<forall>z\<in>set (merge_pairs za ((b, y) # zb)). x \<le> snd z"
      using 3(3,4) False by (auto simp: merge_pairs_set)
    ultimately show ?thesis using False by simp
  qed
qed simp_all

lemma merge_pairs_filter:
  assumes "fst ` set za \<subseteq> A" and "fst ` set zb \<subseteq> B" and "A \<inter> B = {}"
  shows "filter (\<lambda>z. fst z \<in> A) (merge_pairs za zb) = za"
    and "filter (\<lambda>z. fst z \<in> B) (merge_pairs za zb) = zb"
  using assms
proof (induction za zb rule: merge_pairs.induct)
  case (1 zb)
  {
    case 1
    then have "\<forall>z\<in>set zb. fst z \<notin> A" by auto
    then show ?case by (simp add: filter_empty_conv)
  next
    case 2
    then have "\<forall>z\<in>set zb. fst z \<in> B" by auto
    then show ?case by simp
  }
next
  case (2 v va)
  {
    case 1
    then have "\<forall>z\<in>set (v # va). fst z \<in> A" by auto
    then show ?case by simp
  next
    case 2
    then have "\<forall>z\<in>set (v # va). fst z \<notin> B" by auto
    then show ?case by (simp add: filter_empty_conv)
  }
next
  case (3 a x za b y zb)
  {
    case 1
    then have m: "a \<in> A" "b \<notin> A" by auto
    from 1 have s: "fst ` set za \<subseteq> A" "fst ` set zb \<subseteq> B" by auto
    show ?case
    proof (cases "y < x")
      case True
      with "3.IH"(1)[OF True "1"(1) s(2) "1"(3)] m show ?thesis by simp
    next
      case False
      with "3.IH"(3)[OF False s(1) "1"(2,3)] m show ?thesis by simp
    qed
  next
    case 2
    then have m: "a \<notin> B" "b \<in> B" by auto
    from 2 have s: "fst ` set za \<subseteq> A" "fst ` set zb \<subseteq> B" by auto
    show ?case
    proof (cases "y < x")
      case True
      with "3.IH"(2)[OF True "2"(1) s(2) "2"(3)] m show ?thesis by simp
    next
      case False
      with "3.IH"(4)[OF False s(1) "2"(2,3)] m show ?thesis by simp
    qed
  }
qed

lemma sorted_wrt_all: "(\<And>p q. p \<in> set xs \<Longrightarrow> q \<in> set xs \<Longrightarrow> R p q) \<Longrightarrow> sorted_wrt R xs"
  by (induction xs) auto

lemma merge_pairs_ties:
  assumes "fst ` set za \<subseteq> A" and "fst ` set zb \<subseteq> B" and "A \<inter> B = {}"
    and "sorted (map snd za)"
  shows "sorted_wrt (\<lambda>p q. fst p \<in> B \<and> fst q \<in> A \<longrightarrow> snd p < snd q)
           (merge_pairs za (zb :: (nat \<times> 'a::linorder) list))"
  using assms
proof (induction za zb rule: merge_pairs.induct)
  case (1 zb)
  then have "\<forall>z\<in>set zb. fst z \<notin> A" by auto
  then show ?case by (auto intro: sorted_wrt_all)
next
  case (2 v va)
  then have "\<forall>z\<in>set (v # va). fst z \<notin> B" by auto
  then show ?case unfolding merge_pairs.simps by (intro sorted_wrt_all) blast
next
  case (3 a x za b y zb)
  from "3.prems" have s: "fst ` set za \<subseteq> A" "fst ` set zb \<subseteq> B" "sorted (map snd za)" by auto
  show ?case
  proof (cases "y < x")
    case True
    have "\<forall>q\<in>set (merge_pairs ((a, x) # za) zb). fst q \<in> A \<longrightarrow> y < snd q"
    proof (intro ballI impI)
      fix q assume q: "q \<in> set (merge_pairs ((a, x) # za) zb)" "fst q \<in> A"
      with s(2) "3.prems"(3) have "q \<in> set ((a, x) # za)" by (auto simp: merge_pairs_set)
      with "3.prems"(4) have "x \<le> snd q" by auto
      with True show "y < snd q" by simp
    qed
    with "3.IH"(1)[OF True "3.prems"(1) s(2) "3.prems"(3,4)] True show ?thesis by simp
  next
    case False
    from "3.prems" have "a \<notin> B" by auto
    with "3.IH"(2)[OF False s(1) "3.prems"(2,3) s(3)] False show ?thesis by simp
  qed
qed

lemma zip_maps:
  assumes "map f as = map Some xs"
  shows "map fst (zip as xs) = as" and "map snd (zip as xs) = xs"
    and "map f (map fst (zip as xs)) = map (\<lambda>z. Some (snd z)) (zip as xs)"
proof -
  from assms have l: "length as = length xs" by (rule map_eq_imp_length_eq)
  then show 1: "map fst (zip as xs) = as" and 2: "map snd (zip as xs) = xs" by simp_all
  have "map (\<lambda>z. Some (snd z)) (zip as xs) = map Some (map snd (zip as xs))" by simp
  with assms 1 2 show "map f (map fst (zip as xs)) = map (\<lambda>z. Some (snd z)) (zip as xs)" by simp
qed

lemma merge_spec:
  assumes rl: "repr s l as xs" and rk: "repr s k bs ys" and ne: "l \<noteq> k" and sp: "sep s l as k bs"
    and ol: "obj_at s l = Some L" and ok: "obj_at s k = Some K"
  shows "\<exists>s'. merge s l k = Some s'
           \<and> repr s' l (map fst (merge_pairs (zip as xs) (zip bs ys)))
                       (map snd (merge_pairs (zip as xs) (zip bs ys)))
           \<and> repr s' k [] []
           \<and> links_only s s' (set (cells L as) \<union> set (cells K bs))
           \<and> obj_at s' l = Some (L\<lparr>list_size := list_size L + length bs\<rparr>)
           \<and> obj_at s' k = Some (K\<lparr>list_size := 0\<rparr>)
           \<and> length (objs s') = length (objs s)
           \<and> (\<forall>j. j \<noteq> l \<and> j \<noteq> k \<longrightarrow> obj_at s' j = obj_at s j)"
proof -
  let ?za = "zip as xs" and ?zb = "zip bs ys"
  from rl ol have dl: "dseg s None (cells L as) None" and szl: "list_size L = length as"
    and vl: "map (read_data s) as = map Some xs" by (auto elim!: reprE)
  from rk ok have dk: "dseg s None (cells K bs) None" and szk: "list_size K = length bs"
    and vk: "map (read_data s) bs = map Some ys" by (auto elim!: reprE)
  note za = zip_maps[OF vl] and zb = zip_maps[OF vk]
  from sp ol ok have dj: "set (cells L as) \<inter> set (cells K bs) = {}" by (simp add: sep_def)
  have ms: "mstate s l k L K ([] @ map fst ?za) (map fst ?zb)"
    using ol ok ne dl dk dj szk by (simp add: mstate_def za zb)
  from merge_loops_spec[OF ms za(3) zb(3)] obtain s1 ptr s' where
    s': "merge_loop1 s l k (Some (hd (as @ [tail L]))) (Some (hd (bs @ [tail K]))) = Some (ptr, s1)"
    "merge_loop2 s1 l k ptr = Some s'"
    "mdone s s' l k L K as bs (map fst (merge_pairs ?za ?zb))"
    by (auto simp: za zb)
  from repr_head[OF rl ol] obtain hn where hn: "node_at s (head L) = Some hn"
    "next hn = Some (hd (as @ [tail L]))" by blast
  from repr_head[OF rk ok] obtain kn where kn: "node_at s (head K) = Some kn"
    "next kn = Some (hd (bs @ [tail K]))" by blast
  have e: "merge s l k = Some s'"
    using ne ol ok hn kn s'(1,2) by (simp add: merge_def)
  let ?m = "merge_pairs ?za ?zb"
  from s'(3) have d': "dseg s' None (cells L (map fst ?m)) None"
    and dk': "dseg s' None (cells K []) None"
    and ol': "obj_at s' l = Some (L\<lparr>list_size := list_size L + length bs\<rparr>)"
    and ok': "obj_at s' k = Some (K\<lparr>list_size := 0\<rparr>)"
    and lo: "links_only s s' (set (cells L as) \<union> set (cells K bs))"
    and rest: "length (objs s') = length (objs s)" "\<forall>j. j \<noteq> l \<and> j \<noteq> k \<longrightarrow> obj_at s' j = obj_at s j"
    by (simp_all add: mdone_def)
  have rd: "read_data s' = read_data s" using lo by (rule links_only_read_data)
  have "read_data s (fst z) = Some (snd z)" if "z \<in> set ?za \<union> set ?zb" for z
  proof -
    from za(3) zb(3) have "\<forall>z\<in>set ?za. read_data s (fst z) = Some (snd z)"
      "\<forall>z\<in>set ?zb. read_data s (fst z) = Some (snd z)"
      by (simp_all only: map_map o_def map_eq_conv)
    with that show ?thesis by blast
  qed
  then have v': "map (read_data s') (map fst ?m) = map Some (map snd ?m)"
    by (simp add: rd merge_pairs_set)
  have "length ?za = length as" "length ?zb = length bs"
    using arg_cong[OF za(1), of length] arg_cong[OF zb(1), of length] by simp_all
  then have len: "length ?m = list_size L + length bs"
    using szl by (simp add: merge_pairs_length)
  have r': "repr s' l (map fst ?m) (map snd ?m)"
    using ol' _ _ v' by (rule reprI) (simp_all add: d' len)
  have rk': "repr s' k [] []"
    using ok' by (rule reprI) (simp_all add: dk')
  from e r' rk' lo ol' ok' rest show ?thesis by blast
qed

lemma ex_two_repr: "repr ex_two 0 [4, 5, 6, 7] [1, 3, 3, 5]" "repr ex_two 1 [8, 9, 10] [2, 3, 4]"
  "sep ex_two 0 [4, 5, 6, 7] 1 [8, 9, 10]"
  "obj_at ex_two 0 = Some \<lparr>head = 0, tail = 1, list_size = 4\<rparr>"
  "obj_at ex_two 1 = Some \<lparr>head = 2, tail = 3, list_size = 3\<rparr>"
  by (simp_all add: repr_def sep_def obj_at_def ex_two_def cells_def links_def node_at_def read_data_def)

lemma walk_spec:
  "dseg s p (as @ [t]) q \<Longrightarrow> distinct (as @ [t]) \<Longrightarrow> walk s (Some (hd (as @ [t]))) t = Some as"
proof (induction as arbitrary: p)
  case Nil
  then show ?case by (subst walk.simps) simp
next
  case (Cons a as)
  from Cons.prems(1) have "links s a p (Some (hd (as @ [t])))" by (cases as) simp_all
  then obtain n where n: "node_at s a = Some n" "next n = Some (hd (as @ [t]))" by (rule linksE)
  from Cons.prems have "dseg s (Some a) (as @ [t]) q" "distinct (as @ [t])" "a \<noteq> t" by auto
  with Cons.IH[of "Some a"] n show ?case by (subst walk.simps) simp
qed

lemma repr_invariant: "repr s l as xs \<Longrightarrow> invariant s l"
proof -
  assume r: "repr s l as xs"
  then obtain L where o: "obj_at s l = Some L" and d: "dseg s None (cells L as) None"
    and vs: "map (read_data s) as = map Some xs"
    by (auto elim: reprE)
  have va: "list_all (\<lambda>a. read_data s a \<noteq> None) as" unfolding list_all_iff
  proof
    fix a assume "a \<in> set as"
    then have "read_data s a \<in> set (map (read_data s) as)" by simp
    with vs have "read_data s a \<in> set (map Some xs)" by simp
    then show "read_data s a \<noteq> None" by auto
  qed
  from repr_head[OF r o] obtain hn where hn: "node_at s (head L) = Some hn"
    "next hn = Some (hd (as @ [tail L]))" by blast
  from d have "dseg s (Some (head L)) (as @ [tail L]) None" by (simp add: cells_def)
  moreover from dseg_distinct[OF d] have "distinct (as @ [tail L])" by (simp add: cells_def)
  ultimately have "walk s (Some (hd (as @ [tail L]))) (tail L) = Some as" by (rule walk_spec)
  with o hn have "reachable s l = Some as" by (simp add: reachable_def)
  with o d va repr_size_list[OF r] show ?thesis by (simp add: invariant_def)
qed

lemma wfD:
  assumes "wf_heap s M"
  shows "length M = length (objs s)"
    and "l < length M \<Longrightarrow> repr s l (fst (M ! l)) (snd (M ! l))"
    and "i < length M \<Longrightarrow> j < length M \<Longrightarrow> i \<noteq> j \<Longrightarrow> sep s i (fst (M ! i)) j (fst (M ! j))"
  using assms by (simp_all add: wf_heap_def)

lemma sep_cong:
  "obj_at s' i = obj_at s i \<Longrightarrow> obj_at s' j = obj_at s j \<Longrightarrow> sep s' i as j bs = sep s i as j bs"
  by (simp add: sep_def split: option.splits)

lemma wf_upd:
  assumes w: "wf_heap s M" and l: "l < length M" and u: "upd_ok s l (fst (M ! l)) s' as'"
    and r: "repr s' l as' xs'"
  shows "wf_heap s' (M[l := (as', xs')])"
proof -
  from u obtain L L' where f: "frame s s' l (set (cells L (fst (M ! l))))"
    unfolding upd_ok_def by blast
  have len: "length (objs s') = length (objs s)" using f by (simp add: frame_def)
  have oth: "obj_at s' j = obj_at s j" if "j \<noteq> l" for j using f that by (simp add: frame_def)
  have other: "repr s' j (fst (M ! j)) (snd (M ! j)) \<and> sep s' l as' j (fst (M ! j))"
    if "j < length M" "j \<noteq> l" for j
    using repr_upd_other[OF wfD(2)[OF w that(1)] u that(2) wfD(3)[OF w l that(1)]] that(2) by simp
  show ?thesis unfolding wf_heap_def
  proof (intro conjI allI impI)
    show "length (M[l := (as', xs')]) = length (objs s')" using wfD(1)[OF w] len by simp
  next
    fix j assume "j < length (M[l := (as', xs')])"
    then have j: "j < length M" by simp
    show "repr s' j (fst (M[l := (as', xs')] ! j)) (snd (M[l := (as', xs')] ! j))"
      using r other[OF j] l by (cases "j = l") simp_all
  next
    fix i j assume "i < length (M[l := (as', xs')])" "j < length (M[l := (as', xs')])" "i \<noteq> j"
    then have ij: "i < length M" "j < length M" "i \<noteq> j" by simp_all
    show "sep s' i (fst (M[l := (as', xs')] ! i)) j (fst (M[l := (as', xs')] ! j))"
    proof (cases "i = l")
      case True
      with ij other[OF ij(2)] l show ?thesis by simp
    next
      case False
      show ?thesis
      proof (cases "j = l")
        case True
        with ij other[OF ij(1)] l False show ?thesis by (simp add: sep_sym)
      next
        case jl: False
        from wfD(3)[OF w ij] have "sep s i (fst (M ! i)) j (fst (M ! j))" .
        with sep_cong[OF oth[OF False] oth[OF jl]] False jl show ?thesis by simp
      qed
    qed
  qed
qed

lemma wf_same: "wf_heap s M \<Longrightarrow> l < length M \<Longrightarrow> M[l := (fst (M ! l), snd (M ! l))] = M"
  by (simp add: list_update_id)

lemma advance_spec:
  assumes r: "repr s k bs ys" and o: "obj_at s k = Some K" and p: "p \<le> length bs"
  shows "advance s \<lparr>current = Some ((bs @ [tail K]) ! p), container = Some k\<rparr> n
           = (if p + n \<le> length bs
              then Some (Inr \<lparr>current = Some ((bs @ [tail K]) ! (p + n)), container = Some k\<rparr>)
              else Some (Inl invalid_iterator))"
  using p
proof (induction n arbitrary: p)
  case 0
  then show ?case by simp
next
  case (Suc n)
  show ?case
  proof (cases "p = length bs")
    case True
    then have "iter_preinc s \<lparr>current = Some ((bs @ [tail K]) ! p), container = Some k\<rparr>
        = Some (Inl invalid_iterator, \<lparr>current = Some ((bs @ [tail K]) ! p), container = Some k\<rparr>)"
      using o by (simp add: iter_preinc_def deref_list_def nth_append)
    with True show ?thesis by simp
  next
    case False
    with Suc.prems have pl: "p < length bs" by simp
    from r nth_split[OF pl] have r0: "repr s k (take p bs @ bs ! p # drop (Suc p) bs) ys" by simp
    have h: "hd (drop (Suc p) bs @ [tail K]) = (bs @ [tail K]) ! Suc p"
    proof (cases "Suc p = length bs")
      case True
      then show ?thesis by (simp add: nth_append)
    next
      case False
      with pl have "Suc p < length bs" by simp
      then show ?thesis by (simp add: nth_append hd_drop_conv_nth)
    qed
    have "iter_preinc s \<lparr>current = Some ((bs @ [tail K]) ! p), container = Some k\<rparr>
        = Some (Inr \<lparr>current = Some ((bs @ [tail K]) ! Suc p), container = Some k\<rparr>,
                \<lparr>current = Some ((bs @ [tail K]) ! Suc p), container = Some k\<rparr>)"
      using inc_at(1)[OF r0 o, of "\<lparr>current = Some (bs ! p), container = Some k\<rparr>"] pl
      by (simp add: h nth_append)
    with Suc.IH[of "Suc p"] pl show ?thesis by simp
  qed
qed

lemma repr_links_only:
  assumes r: "repr s j cs zs" and o: "obj_at s j = Some J" and lo: "links_only s s' A"
    and dj: "set (cells J cs) \<inter> A = {}" and o': "obj_at s' j = Some J"
  shows "repr s' j cs zs"
proof -
  from r o have d: "dseg s None (cells J cs) None" and sz: "list_size J = length cs"
    and vs: "map (read_data s) cs = map Some zs" by (auto elim!: reprE)
  have same: "node_at s' b = node_at s b" if "b \<in> set (cells J cs)" for b
    using that lo dj by (auto simp: links_only_def)
  have d': "dseg s' None (cells J cs) None"
    using d dseg_cong[of "cells J cs" s' s None None] same by simp
  have "read_data s' = read_data s" using lo by (rule links_only_read_data)
  with vs have vs': "map (read_data s') cs = map Some zs" by simp
  from o' d' sz vs' show ?thesis by (rule reprI)
qed

lemma wf_merge:
  assumes w: "wf_heap s M" and l: "l < length M" and k: "k < length M" and ne: "l \<noteq> k"
  shows "\<exists>s' cs zs. merge s l k = Some s' \<and> wf_heap s' (M[l := (cs, zs), k := ([], [])])"
proof -
  let ?as = "fst (M ! l)" and ?xs = "snd (M ! l)" and ?bs = "fst (M ! k)" and ?ys = "snd (M ! k)"
  note rl = wfD(2)[OF w l] and rk = wfD(2)[OF w k] and sp = wfD(3)[OF w l k ne]
  from rl obtain L where ol: "obj_at s l = Some L" and dl: "dseg s None (cells L ?as) None"
    by (auto elim: reprE)
  from rk obtain K where ok: "obj_at s k = Some K" and dk: "dseg s None (cells K ?bs) None"
    by (auto elim: reprE)
  let ?m = "merge_pairs (zip ?as ?xs) (zip ?bs ?ys)"
  let ?cs = "map fst ?m" and ?zs = "map snd ?m"
  let ?L' = "L\<lparr>list_size := list_size L + length ?bs\<rparr>" and ?K' = "K\<lparr>list_size := 0\<rparr>"
  from merge_spec[OF rl rk ne sp ol ok] obtain s' where
    s': "merge s l k = Some s'" "repr s' l ?cs ?zs" "repr s' k [] []"
    "links_only s s' (set (cells L ?as) \<union> set (cells K ?bs))"
    "obj_at s' l = Some ?L'" "obj_at s' k = Some ?K'"
    "length (objs s') = length (objs s)" "\<forall>j. j \<noteq> l \<and> j \<noteq> k \<longrightarrow> obj_at s' j = obj_at s j"
    by blast
  let ?M' = "M[l := (?cs, ?zs), k := ([], [])]"
  have sub: "set ?cs \<subseteq> set ?as \<union> set ?bs"
    by (auto simp: merge_pairs_set dest: set_zip_leftD)
  from sp ol ok have dj: "set (cells L ?as) \<inter> set (cells K ?bs) = {}" by (simp add: sep_def)
  have cl: "set (cells ?L' ?cs) \<subseteq> set (cells L ?as) \<union> set (cells K ?bs)"
    using sub by (auto simp: cells_def)
  have ck: "set (cells ?K' []) \<subseteq> set (cells K ?bs)" by (auto simp: cells_def)
  from dseg_distinct[OF dk] sub dj
  have lk: "set (cells ?L' ?cs) \<inter> set (cells ?K' []) = {}"
    by (auto simp: cells_def)
  have third: "repr s' j (fst (M ! j)) (snd (M ! j))
       \<and> (\<exists>J. obj_at s' j = Some J \<and> obj_at s j = Some J
             \<and> set (cells J (fst (M ! j))) \<inter> (set (cells L ?as) \<union> set (cells K ?bs)) = {})"
    if j: "j < length M" "j \<noteq> l" "j \<noteq> k" for j
  proof -
    from wfD(2)[OF w j(1)] obtain J where oj: "obj_at s j = Some J" by (auto elim: reprE)
    from wfD(3)[OF w l j(1)] wfD(3)[OF w k j(1)] j(2,3) ol ok oj
    have d: "set (cells J (fst (M ! j))) \<inter> (set (cells L ?as) \<union> set (cells K ?bs)) = {}"
      by (auto simp: sep_def)
    have oj': "obj_at s' j = Some J" using s'(8) j oj by simp
    from repr_links_only[OF wfD(2)[OF w j(1)] oj s'(4) d oj'] oj oj' d show ?thesis by blast
  qed
  have El: "?M' ! l = (?cs, ?zs)" and Ek: "?M' ! k = ([], [])"
    using l k ne by (simp_all add: nth_list_update)
  have Ej: "?M' ! j = M ! j" if "j \<noteq> l" "j \<noteq> k" for j using that by simp
  have Slk: "sep s' l ?cs k []" using s'(5,6) lk by (simp add: sep_def del: cells_update_size)
  have Slj: "sep s' l ?cs j (fst (M ! j))" and Skj: "sep s' k [] j (fst (M ! j))"
    if j: "j < length M" "j \<noteq> l" "j \<noteq> k" for j
  proof -
    from third[OF j] obtain J where J: "obj_at s' j = Some J"
      "set (cells J (fst (M ! j))) \<inter> (set (cells L ?as) \<union> set (cells K ?bs)) = {}" by blast
    from J(2) cl have "set (cells ?L' ?cs) \<inter> set (cells J (fst (M ! j))) = {}" by blast
    with s'(5) J(1) show "sep s' l ?cs j (fst (M ! j))" by (simp add: sep_def del: cells_update_size)
    from J(2) ck have "set (cells ?K' []) \<inter> set (cells J (fst (M ! j))) = {}" by blast
    with s'(6) J(1) show "sep s' k [] j (fst (M ! j))" by (simp add: sep_def del: cells_update_size)
  qed
  have Sij: "sep s' i (fst (M ! i)) j (fst (M ! j))"
    if "i < length M" "j < length M" "i \<noteq> j" "i \<noteq> l" "i \<noteq> k" "j \<noteq> l" "j \<noteq> k" for i j
    using wfD(3)[OF w that(1-3)] sep_cong[of s' i s j] s'(8) that by simp
  have "wf_heap s' ?M'" unfolding wf_heap_def
  proof (intro conjI allI impI)
    show "length ?M' = length (objs s')" using wfD(1)[OF w] s'(7) by simp
  next
    fix j assume "j < length ?M'"
    then have j: "j < length M" by simp
    consider "j = l" | "j = k" | "j \<noteq> l" "j \<noteq> k" by blast
    then show "repr s' j (fst (?M' ! j)) (snd (?M' ! j))"
    proof cases
      case 1
      then show ?thesis using s'(2) by (simp only: El fst_conv snd_conv)
    next
      case 2
      then show ?thesis using s'(3) by (simp only: Ek fst_conv snd_conv)
    next
      case 3
      then show ?thesis using third[OF j 3] by (simp only: Ej[OF 3])
    qed
  next
    fix i j assume "i < length ?M'" "j < length ?M'" "i \<noteq> j"
    then have ij: "i < length M" "j < length M" "i \<noteq> j" by simp_all
    consider (lk) "i = l" "j = k" | (kl) "i = k" "j = l"
      | (lj) "i = l" "j \<noteq> l" "j \<noteq> k" | (kj) "i = k" "j \<noteq> l" "j \<noteq> k"
      | (il) "j = l" "i \<noteq> l" "i \<noteq> k" | (ik) "j = k" "i \<noteq> l" "i \<noteq> k"
      | (oo) "i \<noteq> l" "i \<noteq> k" "j \<noteq> l" "j \<noteq> k"
      using ij(3) by blast
    then show "sep s' i (fst (?M' ! i)) j (fst (?M' ! j))"
    proof cases
      case lk
      then show ?thesis using Slk by (simp only: El Ek fst_conv)
    next
      case kl
      then show ?thesis using sep_sym[OF Slk] by (simp only: El Ek fst_conv)
    next
      case lj
      then show ?thesis using Slj[OF ij(2) lj(2,3)] by (simp only: El Ej[OF lj(2,3)] fst_conv)
    next
      case kj
      then show ?thesis using Skj[OF ij(2) kj(2,3)] by (simp only: Ek Ej[OF kj(2,3)] fst_conv)
    next
      case il
      then show ?thesis using sep_sym[OF Slj[OF ij(1) il(2,3)]]
        by (simp only: El Ej[OF il(2,3)] fst_conv)
    next
      case ik
      then show ?thesis using sep_sym[OF Skj[OF ij(1) ik(2,3)]]
        by (simp only: Ek Ej[OF ik(2,3)] fst_conv)
    next
      case oo
      then show ?thesis using Sij[OF ij oo] by (simp only: Ej[OF oo(1,2)] Ej[OF oo(3,4)])
    qed
  qed
  with s'(1) show ?thesis by blast
qed

lemma hd_drop_snoc: "n \<le> length as \<Longrightarrow> hd (drop n as @ [t]) = (as @ [t]) ! n"
  by (cases "n = length as") (simp_all add: nth_append hd_drop_conv_nth hd_append)

lemma step_upd:
  assumes "wf_heap s M" and "l < length M" and "upd_ok s l (fst (M ! l)) s' as'" and "repr s' l as' xs'"
  shows "\<exists>M'. wf_heap s' M' \<and> length M' = length M \<and> (\<forall>j<length M. j \<noteq> l \<longrightarrow> M' ! j = M ! j)"
  using wf_upd[OF assms] by (intro exI[of _ "M[l := (as', xs')]"]) simp

lemma step_same:
  "wf_heap s M \<Longrightarrow> \<exists>M'. wf_heap s M' \<and> length M' = length M \<and> (\<forall>j<length M. j \<noteq> l \<longrightarrow> M' ! j = M ! j)"
  by (intro exI[of _ M]) simp

lemma position_spec:
  assumes w: "wf_heap s M" and k: "k < length M"
  shows "\<exists>K. obj_at s k = Some K \<and> (\<exists>r. do { b \<leftarrow> begin_list s k; advance s b n } = Some r
     \<and> (if n \<le> length (fst (M ! k))
         then r = Inr \<lparr>current = Some ((fst (M ! k) @ [tail K]) ! n), container = Some k\<rparr>
         else r = Inl invalid_iterator))"
proof -
  note rk = wfD(2)[OF w k]
  from rk obtain K where ok: "obj_at s k = Some K" by (auto elim: reprE)
  have "hd (fst (M ! k) @ [tail K]) = (fst (M ! k) @ [tail K]) ! 0"
    by (simp add: hd_conv_nth)
  with begin_at(1)[OF rk ok] advance_spec[OF rk ok, of 0 n] ok show ?thesis by simp
qed

lemma exec_insert:
  assumes w: "wf_heap s M" and l: "l < length M" and k: "k < length M"
  shows "\<exists>r s' M'. exec ext_sort s l (Insert_at k n v) = Some (r, s') \<and> wf_heap s' M'
           \<and> length M' = length M \<and> (\<forall>j<length M. j \<noteq> l \<longrightarrow> M' ! j = M ! j)"
proof -
  let ?as = "fst (M ! l)" and ?xs = "snd (M ! l)"
  from position_spec[OF w k, of n] obtain K r where
    p: "obj_at s k = Some K" "do { b \<leftarrow> begin_list s k; advance s b n } = Some r"
    "if n \<le> length (fst (M ! k))
     then r = Inr \<lparr>current = Some ((fst (M ! k) @ [tail K]) ! n), container = Some k\<rparr>
     else r = Inl invalid_iterator" by blast
  from p(2) have e: "exec ext_sort s l (Insert_at k n v)
      = (case r of Inl e \<Rightarrow> Some (Inl e, s) | Inr pos \<Rightarrow> discard (insert_iter s l pos v))"
    by (auto simp: exec_def split: Option.bind_splits)
  show ?thesis
  proof (cases "n \<le> length (fst (M ! k)) \<and> k = l")
    case True
    note rl = wfD(2)[OF w l]
    from True p have ol: "obj_at s l = Some K" by simp
    from rl True have r0: "repr s l (take n ?as @ drop n ?as) ?xs" by simp
    let ?pos = "\<lparr>current = Some ((?as @ [tail K]) ! n), container = Some l\<rparr>"
    from insert_iter_spec[OF r0 ol, of ?pos v] True obtain s' where
      s': "insert_iter s l ?pos v = Some (Inr \<lparr>current = Some (length (nodes s)), container = Some l\<rparr>, s')"
      "repr s' l (take n ?as @ length (nodes s) # drop n ?as)
         (take (length (take n ?as)) ?xs @ v # drop (length (take n ?as)) ?xs)"
      "upd_ok s l (take n ?as @ drop n ?as) s' (take n ?as @ length (nodes s) # drop n ?as)"
      by (auto simp: hd_drop_snoc)
    from s'(3) have u: "upd_ok s l ?as s' (take n ?as @ length (nodes s) # drop n ?as)" by simp
    from p(3) True have "r = Inr ?pos" by auto
    with e s'(1) have "exec ext_sort s l (Insert_at k n v) = Some (Inr (), s')"
      by (simp add: discard_def)
    with step_upd[OF w l u s'(2)] show ?thesis by blast
  next
    case False
    then have "\<exists>err. exec ext_sort s l (Insert_at k n v) = Some (Inl err, s)"
      using e p(3) by (auto simp: discard_def insert_iter_foreign split: if_splits)
    with step_same[OF w] show ?thesis by blast
  qed
qed

lemma exec_erase:
  assumes w: "wf_heap s M" and l: "l < length M" and k: "k < length M"
  shows "\<exists>r s' M'. exec ext_sort s l (Erase_at k n) = Some (r, s') \<and> wf_heap s' M'
           \<and> length M' = length M \<and> (\<forall>j<length M. j \<noteq> l \<longrightarrow> M' ! j = M ! j)"
proof -
  let ?as = "fst (M ! l)" and ?xs = "snd (M ! l)"
  note rl = wfD(2)[OF w l]
  from rl obtain L where ol: "obj_at s l = Some L" by (auto elim: reprE)
  from position_spec[OF w k, of n] obtain K r where
    p: "obj_at s k = Some K" "do { b \<leftarrow> begin_list s k; advance s b n } = Some r"
    "if n \<le> length (fst (M ! k))
     then r = Inr \<lparr>current = Some ((fst (M ! k) @ [tail K]) ! n), container = Some k\<rparr>
     else r = Inl invalid_iterator" by blast
  from p(2) have e: "exec ext_sort s l (Erase_at k n)
      = (case r of Inl e \<Rightarrow> Some (Inl e, s) | Inr pos \<Rightarrow> discard (erase_iter s l pos))"
    by (auto simp: exec_def split: Option.bind_splits)
  show ?thesis
  proof (cases "n < length (fst (M ! k)) \<and> k = l")
    case True
    from True p ol have KL: "K = L" by simp
    let ?pos = "\<lparr>current = Some (?as ! n), container = Some l\<rparr>"
    from True have nl: "n < length ?as" by auto
    from erase_iter_nth[OF rl ol nl, of ?pos] obtain s' nxt where
      s': "erase_iter s l ?pos = Some (Inr nxt, s')"
      "repr s' l (take n ?as @ drop (Suc n) ?as) (take n ?xs @ drop (Suc n) ?xs)"
      "upd_ok s l ?as s' (take n ?as @ drop (Suc n) ?as)"
      by auto
    from p(3) True have "r = Inr ?pos" by (auto simp: nth_append)
    with e s'(1) have "exec ext_sort s l (Erase_at k n) = Some (Inr (), s')"
      by (simp add: discard_def)
    with step_upd[OF w l s'(3,2)] show ?thesis by blast
  next
    case False
    have "\<exists>err. exec ext_sort s l (Erase_at k n) = Some (Inl err, s)"
    proof (cases "n \<le> length (fst (M ! k))")
      case le: True
      let ?pos = "\<lparr>current = Some ((fst (M ! k) @ [tail K]) ! n), container = Some k\<rparr>"
      from le p(3) e have e2: "exec ext_sort s l (Erase_at k n) = discard (erase_iter s l ?pos)"
        by simp
      show ?thesis
      proof (cases "?as = []")
        case True
        with rl erase_iter_empty[of s l ?xs ?pos] e2 show ?thesis by (simp add: discard_def)
      next
        case ne: False
        have "container ?pos \<noteq> Some l
              \<or> (case end_list s l of None \<Rightarrow> False | Some e \<Rightarrow> iter_eq ?pos e)"
        proof (cases "k = l")
          case True
          with False le have "n = length ?as" by simp
          with True p ol begin_at(3)[OF rl ol] show ?thesis by (simp add: iter_eq_def nth_append)
        next
          case False
          then show ?thesis by simp
        qed
        from erase_iter_invalid[OF rl ne this] e2 show ?thesis by (simp add: discard_def)
      qed
    next
      case False
      with p(3) e show ?thesis by simp
    qed
    with step_same[OF w] show ?thesis by blast
  qed
qed

lemma exec_spec:
  assumes w: "wf_heap s M" and ok: "op_ok (length M) (l, c)" and so: "sort_ok ext_sort"
  shows "\<exists>r s' M'. exec ext_sort s l c = Some (r, s') \<and> wf_heap s' M' \<and> length M' = length M
           \<and> (\<forall>j<length M. j \<notin> touched (l, c) \<longrightarrow> M' ! j = M ! j)"
proof -
  from ok have l: "l < length M" by (cases c) simp_all
  let ?as = "fst (M ! l)" and ?xs = "snd (M ! l)"
  note rl = wfD(2)[OF w l]
  have single: "\<exists>r s' M'. exec ext_sort s l c = Some (r, s') \<and> wf_heap s' M' \<and> length M' = length M
           \<and> (\<forall>j<length M. j \<notin> touched (l, c) \<longrightarrow> M' ! j = M ! j)"
    if "exec ext_sort s l c = Some (r, s')" "upd_ok s l ?as s' as'" "repr s' l as' xs'"
      "touched (l, c) = {l}" for r s' as' xs'
    using step_upd[OF w l that(2,3)] that(1,4) by auto
  have same: "\<exists>r s' M'. exec ext_sort s l c = Some (r, s') \<and> wf_heap s' M' \<and> length M' = length M
           \<and> (\<forall>j<length M. j \<notin> touched (l, c) \<longrightarrow> M' ! j = M ! j)"
    if "exec ext_sort s l c = Some (r, s)" for r
    using that w by blast
  show ?thesis
  proof (cases c)
    case (Push_back v)
    from push_back_spec[OF rl, of v] obtain s' where
      "push_back s l v = Some s'" "repr s' l (?as @ [length (nodes s)]) (?xs @ [v])"
      "upd_ok s l ?as s' (?as @ [length (nodes s)])" by blast
    then show ?thesis using Push_back by (intro single) (simp_all add: exec_def)
  next
    case (Push_front v)
    from push_front_spec[OF rl, of v] obtain s' where
      "push_front s l v = Some s'" "repr s' l (length (nodes s) # ?as) (v # ?xs)"
      "upd_ok s l ?as s' (length (nodes s) # ?as)" by blast
    then show ?thesis using Push_front by (intro single) (simp_all add: exec_def)
  next
    case Pop_back
    show ?thesis
    proof (cases "?as = []")
      case True
      with rl pop_empty(2)[of s l ?xs] Pop_back show ?thesis by (intro same) (simp add: exec_def)
    next
      case False
      then have a: "?as = butlast ?as @ [last ?as]" by simp
      with rl have "repr s l (butlast ?as @ [last ?as]) ?xs" by simp
      from pop_back_spec[OF this] a obtain s' where
        "pop_back s l = Some (Inr (), s')" "repr s' l (butlast ?as) (butlast ?xs)"
        "upd_ok s l ?as s' (butlast ?as)" by auto
      then show ?thesis using Pop_back by (intro single) (simp_all add: exec_def)
    qed
  next
    case Pop_front
    show ?thesis
    proof (cases ?as)
      case Nil
      with rl pop_empty(1)[of s l ?xs] Pop_front show ?thesis by (intro same) (simp add: exec_def)
    next
      case (Cons a as')
      with rl have "repr s l (a # as') ?xs" by simp
      from pop_front_spec[OF this] Cons obtain s' where
        "pop_front s l = Some (Inr (), s')" "repr s' l as' (tl ?xs)"
        "upd_ok s l ?as s' as'" by auto
      then show ?thesis using Pop_front by (intro single) (simp_all add: exec_def)
    qed
  next
    case (Insert_at k n v)
    with ok have "k < length M" by simp
    from exec_insert[OF w l this, of ext_sort n v] Insert_at show ?thesis by auto
  next
    case (Erase_at k n)
    with ok have "k < length M" by simp
    from exec_erase[OF w l this, of ext_sort n] Erase_at show ?thesis by auto
  next
    case Clear
    from clear_spec[OF rl] obtain s' where
      "clear s l = Some (Inr (), s')" "repr s' l [] []" "upd_ok s l ?as s' []" by blast
    then show ?thesis using Clear by (intro single) (simp_all add: exec_def)
  next
    case (Merge k)
    with ok have k: "k < length M" by simp
    show ?thesis
    proof (cases "l = k")
      case True
      with Merge show ?thesis by (intro same) (simp add: exec_def merge_def)
    next
      case False
      from wf_merge[OF w l k False] obtain s' cs zs where
        m: "merge s l k = Some s'" "wf_heap s' (M[l := (cs, zs), k := ([], [])])" by blast
      have "exec ext_sort s l c = Some (Inr (), s')" using m(1) Merge by (simp add: exec_def)
      moreover have "\<forall>j<length M. j \<notin> touched (l, c) \<longrightarrow> M[l := (cs, zs), k := ([], [])] ! j = M ! j"
        using Merge by simp
      ultimately show ?thesis using m(2) by (intro exI[of _ "M[l := (cs, zs), k := ([], [])]"] exI conjI) simp_all
    qed
  next
    case Reverse
    from rl obtain L where o: "obj_at s l = Some L" by (auto elim: reprE)
    from reverse_spec[OF rl o] obtain s' where
      "reverse s l = Some s'" "repr s' l (rev ?as) (rev ?xs)" "upd_ok s l ?as s' (rev ?as)" by blast
    then show ?thesis using Reverse by (intro single) (simp_all add: exec_def)
  next
    case Sort
    from so have "mset (ext_sort (\<lambda>a b. a < b) ?xs) = mset ?xs" by (simp add: sort_ok_def)
    then have len: "length (ext_sort (\<lambda>a b. a < b) ?xs) = length ?xs" by (metis size_mset)
    from sort_list_spec[where ext_sort = ext_sort, OF rl len] obtain s' where
      s': "sort_list ext_sort s l = Some (Inr (), s')"
      "repr s' l ?as (if length ?as \<le> 1 then ?xs else ext_sort (\<lambda>a b. a < b) ?xs)"
      "values_only s s' (set ?as)" by blast
    from rl obtain L where o: "obj_at s l = Some L" by (auto elim: reprE)
    have "frame s s' l (set (cells L ?as))"
      using s'(3) by (rule frame_values_only) (auto simp: cells_def)
    moreover have "obj_at s' l = Some L" using o obj_at_values_only[OF s'(3)] by simp
    ultimately have "upd_ok s l ?as s' ?as" using o unfolding upd_ok_def by blast
    with s'(1,2) show ?thesis using Sort by (intro single) (simp_all add: exec_def)
  next
    case Unique
    from unique_spec[OF rl] obtain s' where
      "unique s l = Some (Inr (), s')"
      "repr s' l (map fst (uniq_pairs (zip ?as ?xs))) (remdups_adj ?xs)"
      "upd_ok s l ?as s' (map fst (uniq_pairs (zip ?as ?xs)))" by blast
    then show ?thesis using Unique by (intro single) (simp_all add: exec_def)
  qed
qed

lemma run_spec:
  assumes "wf_heap s M" and "sort_ok ext_sort" and "list_all (op_ok (length M)) ops"
  shows "\<exists>s' M'. run ext_sort s ops = Some s' \<and> wf_heap s' M' \<and> length M' = length M
           \<and> (\<forall>j<length M. j \<notin> \<Union> (touched ` set ops) \<longrightarrow> M' ! j = M ! j)"
  using assms
proof (induction ops arbitrary: s M)
  case Nil
  then show ?case by auto
next
  case (Cons x ops)
  obtain l c where x: "x = (l, c)" by (cases x)
  from Cons.prems(3) have ok: "op_ok (length M) (l, c)" and oks: "list_all (op_ok (length M)) ops"
    by (simp_all add: x)
  from exec_spec[OF Cons.prems(1) ok Cons.prems(2)] obtain r s1 M1 where
    1: "exec ext_sort s l c = Some (r, s1)" "wf_heap s1 M1" "length M1 = length M"
    "\<forall>j<length M. j \<notin> touched (l, c) \<longrightarrow> M1 ! j = M ! j" by blast
  from oks 1(3) have oks1: "list_all (op_ok (length M1)) ops" by simp
  from Cons.IH[OF 1(2) Cons.prems(2) oks1] obtain s' M' where
    2: "run ext_sort s1 ops = Some s'" "wf_heap s' M'" "length M' = length M1"
    "\<forall>j<length M1. j \<notin> \<Union> (touched ` set ops) \<longrightarrow> M' ! j = M1 ! j" by blast
  have "run ext_sort s (x # ops) = Some s'" using 1(1) 2(1) by (simp add: x)
  moreover have "\<forall>j<length M. j \<notin> \<Union> (touched ` set (x # ops)) \<longrightarrow> M' ! j = M ! j"
    using 1(3,4) 2(4) by (simp add: x)
  ultimately show ?case using 2(2,3) 1(3) by auto
qed

lemma wf_invariant: "wf_heap s M \<Longrightarrow> l < length (objs s) \<Longrightarrow> invariant s l"
  using wfD(1,2)[of s M] repr_invariant by metis

lemma ex_two_wf: "wf_heap ex_two [([4, 5, 6, 7], [1, 3, 3, 5]), ([8, 9, 10], [2, 3, 4])]"
proof -
  have o: "length (objs ex_two) = 2" by (simp add: ex_two_def)
  have s: "sep ex_two 1 [8, 9, 10] 0 [4, 5, 6, 7]" using ex_two_repr(3) by (rule sep_sym)
  show ?thesis
    unfolding wf_heap_def using ex_two_repr(1-3) s o
    by (auto simp: less_Suc_eq numeral_2_eq_2)
qed

subsection \<open>Copies in a heap of containers\<close>

lemma repr_extend:
  assumes r: "repr s k bs ys" and o: "obj_at s1 k = obj_at s k"
    and n: "\<forall>b. b < length (nodes s) \<longrightarrow> node_at s1 b = node_at s b"
  shows "repr s1 k bs ys"
proof -
  from r obtain K where ok: "obj_at s k = Some K" and dk: "dseg s None (cells K bs) None"
    and sz: "list_size K = length bs" and vs: "map (read_data s) bs = map Some ys"
    by (auto elim: reprE)
  have same: "node_at s1 b = node_at s b" if "b \<in> set (cells K bs)" for b
    using cells_in_range[OF dk that] n by simp
  have dk1: "dseg s1 None (cells K bs) None"
    using dk dseg_cong[of "cells K bs" s1 s None None] same by simp
  have "map (read_data s1) bs = map (read_data s) bs"
    using same by (auto simp: read_data_def cells_def)
  with vs have "map (read_data s1) bs = map Some ys" by simp
  with o ok dk1 sz show ?thesis by (simp add: reprI)
qed

lemma wf_ctor:
  assumes w: "wf_heap s M"
  shows "\<exists>s'. list_ctor s = Some (length M, s') \<and> wf_heap s' (M @ [([], [])])
           \<and> length (nodes s') = Suc (Suc (length (nodes s)))"
proof -
  have lm: "length M = length (objs s)" using wfD(1)[OF w] .
  from list_ctor_spec[of s] obtain s1 where
    s1: "list_ctor s = Some (length (objs s), s1)" "repr s1 (length (objs s)) [] []"
    "length (objs s1) = Suc (length (objs s))"
    "\<forall>j. j < length (objs s) \<longrightarrow> obj_at s1 j = obj_at s j"
    "length (nodes s1) = Suc (Suc (length (nodes s)))"
    "\<forall>b. b < length (nodes s) \<longrightarrow> node_at s1 b = node_at s b"
    "obj_at s1 (length (objs s))
       = Some \<lparr>head = length (nodes s), tail = Suc (length (nodes s)), list_size = 0\<rparr>"
    by blast
  let ?M = "M @ [([], [])]"
  have old: "repr s1 j (fst (M ! j)) (snd (M ! j))" if "j < length M" for j
    using repr_extend[OF wfD(2)[OF w that] _ s1(6)] s1(4) that lm by simp
  have new_old: "sep s1 (length M) [] j (fst (M ! j))" if "j < length M" for j
  proof -
    from wfD(2)[OF w that] obtain J where J: "obj_at s j = Some J"
      "dseg s None (cells J (fst (M ! j))) None" by (auto elim: reprE)
    have "obj_at s1 j = Some J" using s1(4) that lm J(1) by simp
    then show ?thesis
      using s1(7) lm cells_in_range[OF J(2)] by (fastforce simp: sep_def cells_def)
  qed
  have "wf_heap s1 ?M" unfolding wf_heap_def
  proof (intro conjI allI impI)
    show "length ?M = length (objs s1)" using lm s1(3) by simp
  next
    fix j assume "j < length ?M"
    then consider "j < length M" | "j = length M" by fastforce
    then show "repr s1 j (fst (?M ! j)) (snd (?M ! j))"
    proof cases
      case 1
      then show ?thesis using old by (simp add: nth_append)
    next
      case 2
      have "repr s1 (length M) [] []" using s1(2) lm by simp
      then show ?thesis using 2 by simp
    qed
  next
    fix i j assume ij: "i < length ?M" "j < length ?M" "i \<noteq> j"
    then consider "i < length M" "j < length M" | "i = length M" "j < length M"
      | "i < length M" "j = length M" by fastforce
    then show "sep s1 i (fst (?M ! i)) j (fst (?M ! j))"
    proof cases
      case 1
      from wfD(3)[OF w 1 ij(3)] have "sep s i (fst (M ! i)) j (fst (M ! j))" .
      moreover have "obj_at s1 i = obj_at s i" "obj_at s1 j = obj_at s j"
        using s1(4) 1 lm by simp_all
      ultimately show ?thesis using 1 sep_cong[of s1 i s j] by (simp add: nth_append)
    next
      case 2
      then show ?thesis using new_old[of j] by (simp add: nth_append)
    next
      case 3
      then show ?thesis using sep_sym[OF new_old[of i]] by (simp add: nth_append)
    qed
  qed
  with s1(1,5) lm show ?thesis by auto
qed

lemma wf_copy_ctor:
  assumes w: "wf_heap s M" and k: "k < length M"
  shows "\<exists>s' new. list_copy_ctor s k = Some (Inr (length M), s')
           \<and> wf_heap s' (M @ [(new, snd (M ! k))]) \<and> (\<forall>a\<in>set new. length (nodes s) \<le> a)"
proof -
  let ?l = "length M" and ?bs = "fst (M ! k)" and ?ys = "snd (M ! k)"
  let ?M = "M @ [([], [])]"
  from wf_ctor[OF w] obtain s1 where
    s1: "list_ctor s = Some (?l, s1)" "wf_heap s1 ?M" "length (nodes s1) = Suc (Suc (length (nodes s)))"
    by blast
  have l: "?l < length ?M" and k': "k < length ?M" and ne: "?l \<noteq> k" using k by simp_all
  have rl: "repr s1 ?l [] []" using wfD(2)[OF s1(2) l] by simp
  have rk: "repr s1 k ([] @ ?bs) ?ys" using wfD(2)[OF s1(2) k'] k by (simp add: nth_append)
  have sp: "sep s1 ?l [] k ([] @ ?bs)" using wfD(3)[OF s1(2) l k' ne] k by (simp add: nth_append)
  from rk obtain K where ok: "obj_at s1 k = Some K" by (auto elim: reprE)
  have cb: "cbegin s1 k = Some \<lparr>current = Some (hd (?bs @ [tail K])), container = Some k\<rparr>"
    using begin_at(2)[OF rk ok] by simp
  from copy_loop_spec[OF rl rk ne sp ok] obtain s' new where
    s': "copy_loop s1 ?l k \<lparr>current = Some (hd (?bs @ [tail K])), container = Some k\<rparr> = Some (Inr (), s')"
    "repr s' ?l ([] @ new) ([] @ drop (length ([] :: nat list)) ?ys)"
    "upd_ok s1 ?l [] s' ([] @ new)" "\<forall>a\<in>set new. length (nodes s1) \<le> a"
    by blast
  have "list_copy_ctor s k = Some (Inr ?l, s')"
    using s1(1) cb s'(1) by (simp add: list_copy_ctor_def)
  moreover have "\<forall>a\<in>set new. length (nodes s) \<le> a" using s'(4) s1(3) by auto
  moreover have "wf_heap s' (?M[?l := (new, ?ys)])"
    using wf_upd[OF s1(2) l, of s' new ?ys] s'(2,3) by simp
  then have "wf_heap s' (M @ [(new, ?ys)])" by simp
  ultimately show ?thesis by blast
qed

lemma wf_assign:
  assumes w: "wf_heap s M" and l: "l < length M" and k: "k < length M" and ne: "l \<noteq> k"
  shows "\<exists>s' new. assign s l k = Some (Inr l, s')
           \<and> wf_heap s' (M[l := (new, snd (M ! k))]) \<and> (\<forall>a\<in>set new. length (nodes s) \<le> a)"
proof -
  let ?bs = "fst (M ! k)" and ?ys = "snd (M ! k)"
  let ?M = "M[l := ([], [])]"
  from clear_spec[OF wfD(2)[OF w l]] obtain s1 where
    s1: "clear s l = Some (Inr (), s1)" "repr s1 l [] []" "upd_ok s l (fst (M ! l)) s1 []"
    "length (nodes s1) = length (nodes s)" by blast
  have w1: "wf_heap s1 ?M" using wf_upd[OF w l s1(3) s1(2)] .
  have l': "l < length ?M" and k': "k < length ?M" using l k by simp_all
  have rk: "repr s1 k ([] @ ?bs) ?ys" using wfD(2)[OF w1 k'] ne by simp
  have sp: "sep s1 l [] k ([] @ ?bs)" using wfD(3)[OF w1 l' k' ne] ne l by simp
  from rk obtain K where ok: "obj_at s1 k = Some K" by (auto elim: reprE)
  have cb: "cbegin s1 k = Some \<lparr>current = Some (hd (?bs @ [tail K])), container = Some k\<rparr>"
    using begin_at(2)[OF rk ok] by simp
  from copy_loop_spec[OF s1(2) rk ne sp ok] obtain s' new where
    s': "copy_loop s1 l k \<lparr>current = Some (hd (?bs @ [tail K])), container = Some k\<rparr> = Some (Inr (), s')"
    "repr s' l ([] @ new) ([] @ drop (length ([] :: nat list)) ?ys)"
    "upd_ok s1 l [] s' ([] @ new)" "\<forall>a\<in>set new. length (nodes s1) \<le> a"
    by blast
  have "assign s l k = Some (Inr l, s')"
    using ne s1(1) cb s'(1) by (simp add: assign_def)
  moreover have "\<forall>a\<in>set new. length (nodes s) \<le> a" using s'(4) s1(4) by auto
  moreover have "wf_heap s' (?M[l := (new, ?ys)])"
    using wf_upd[OF w1 l', of s' new ?ys] s'(2,3) l by simp
  then have "wf_heap s' (M[l := (new, ?ys)])" by simp
  ultimately show ?thesis by blast
qed

lemma ex_pair_built:
  "do { (a, s1) \<leftarrow> list_ctor \<lparr>nodes = [], objs = []\<rparr>; (b, s2) \<leftarrow> list_ctor s1;
        s3 \<leftarrow> push_back s2 a 1; s4 \<leftarrow> push_back s3 a 2; s5 \<leftarrow> push_back s4 a 3;
        push_back s5 b 7 } = Some ex_pair"
  by (simp add: list_ctor_def new_raw_def raw_node_def push_back_def new_node_def alloc_cell_def
      insert_node_def obj_at_def deref_def node_at_def set_prev_def set_next_def put_node_def
      put_obj_def size_incr_def ex_pair_def)

lemma ex_pair_wf: "wf_heap ex_pair [([4, 5, 6], [1, 2, 3]), ([7], [7])]"
proof -
  have r: "repr ex_pair 0 [4, 5, 6] [1, 2, 3]" "repr ex_pair (Suc 0) [7] [7]"
    "sep ex_pair 0 [4, 5, 6] (Suc 0) [7]"
    by (simp_all add: repr_def sep_def obj_at_def ex_pair_def cells_def links_def node_at_def
        read_data_def)
  have o: "length (objs ex_pair) = 2" by (simp add: ex_pair_def)
  show ?thesis
    unfolding wf_heap_def using r sep_sym[OF r(3)] o
    by (auto simp: less_Suc_eq numeral_2_eq_2)
qed

lemma untouched_iff: "untouched c ops \<longleftrightarrow> c \<notin> \<Union> (touched ` set ops)"
  by (auto simp: untouched_def list_all_iff)

lemma run_untouched:
  assumes w: "wf_heap s M" and so: "sort_ok ext_sort" and ok: "list_all (op_ok (length M)) ops"
  shows "\<exists>s'. run ext_sort s ops = Some s'
           \<and> (\<forall>c<length M. untouched c ops \<longrightarrow> repr s' c (fst (M ! c)) (snd (M ! c)))"
proof -
  from run_spec[OF w so ok] obtain s' M' where
    1: "run ext_sort s ops = Some s'" "wf_heap s' M'" "length M' = length M"
    "\<forall>j<length M. j \<notin> \<Union> (touched ` set ops) \<longrightarrow> M' ! j = M ! j" by blast
  have "repr s' c (fst (M ! c)) (snd (M ! c))" if "c < length M" "untouched c ops" for c
    using wfD(2)[OF 1(2), of c] 1(3,4) that by (simp add: untouched_iff)
  with 1(1) show ?thesis by blast
qed

section \<open>The claims\<close>

subsection \<open>Self-assignment\<close>

text \<open>C10. Self-assignment is a safe no-op: \<^verbatim>\<open>a = a\<close> raises no error and leaves the whole
  state, hence the size and the sequence of values of \<^verbatim>\<open>a\<close>, exactly as it was. The
  operator compares \<^verbatim>\<open>this\<close> with the address of its argument before it clears anything,
  so this holds in every state.\<close>

theorem assign_self_noop: "assign s this this = Some (Inr this, s)"
  by (simp add: assign_def)

subsection \<open>Iterator errors\<close>

text \<open>C5. For \<^verbatim>\<open>iterator\<close> and \<^verbatim>\<open>const_iterator\<close> alike: pre- and post-increment raise
  \<^verbatim>\<open>invalid_iterator\<close> exactly when the cursor is unset or equal to \<^verbatim>\<open>end()\<close>; pre- and
  post-decrement raise it exactly when the cursor is unset or equal to \<^verbatim>\<open>begin()\<close>; \<^verbatim>\<open>*it\<close> and
  \<^verbatim>\<open>it->\<close> raise it exactly when the cursor is unset or on the head or the tail sentinel. In
  particular dereferencing \<^verbatim>\<open>end()\<close> raises it.\<close>

theorem iterator_raises_exactly:
  "(map_option fst (iter_preinc s it) = Some (Inl invalid_iterator)) = (unset it \<or> at_end s it)
   \<and> (map_option fst (iter_postinc s it) = Some (Inl invalid_iterator)) = (unset it \<or> at_end s it)
   \<and> (map_option fst (citer_preinc s it) = Some (Inl invalid_iterator)) = (unset it \<or> at_end s it)
   \<and> (map_option fst (citer_postinc s it) = Some (Inl invalid_iterator)) = (unset it \<or> at_end s it)
   \<and> (map_option fst (iter_predec s it) = Some (Inl invalid_iterator)) = (unset it \<or> at_begin s it)
   \<and> (map_option fst (iter_postdec s it) = Some (Inl invalid_iterator)) = (unset it \<or> at_begin s it)
   \<and> (map_option fst (citer_predec s it) = Some (Inl invalid_iterator)) = (unset it \<or> at_begin s it)
   \<and> (map_option fst (citer_postdec s it) = Some (Inl invalid_iterator)) = (unset it \<or> at_begin s it)
   \<and> (iter_deref s it = Some (Inl invalid_iterator)) = (unset it \<or> on_sentinel s it)
   \<and> (iter_arrow s it = Some (Inl invalid_iterator)) = (unset it \<or> on_sentinel s it)
   \<and> (citer_deref s it = Some (Inl invalid_iterator)) = (unset it \<or> on_sentinel s it)
   \<and> (citer_arrow s it = Some (Inl invalid_iterator)) = (unset it \<or> on_sentinel s it)
   \<and> (\<forall>e. end_list s l = Some e \<longrightarrow> iter_deref s e = Some (Inl invalid_iterator))"
  by (intro conjI inc_raises dec_raises deref_raises deref_end_raises)

theorem iterator_raises_exactly_witness:
  "end_list ex_empty 0 = Some \<lparr>current = Some 1, container = Some 0\<rparr>
   \<and> iter_deref ex_empty \<lparr>current = Some 1, container = Some 0\<rparr> = Some (Inl invalid_iterator)
   \<and> map_option fst (iter_preinc ex_empty \<lparr>current = Some 1, container = Some 0\<rparr>)
       = Some (Inl invalid_iterator)
   \<and> map_option fst (iter_predec ex_empty ex_unset) = Some (Inl invalid_iterator)"
  using iterator_raises_exactly [of ex_empty "\<lparr>current = Some 1, container = Some 0\<rparr>" 0]
    iterator_raises_exactly [of ex_empty ex_unset 0]
  by (simp add: end_list_def obj_at_def ex_empty_def ex_unset_def unset_def at_end_def iter_eq_def)

subsection \<open>Validation precedes mutation\<close>

text \<open>C9. Whenever \<^verbatim>\<open>front\<close>, \<^verbatim>\<open>back\<close>, \<^verbatim>\<open>pop_front\<close>, \<^verbatim>\<open>pop_back\<close>, \<^verbatim>\<open>insert\<close> or \<^verbatim>\<open>erase\<close> raises
  an error, the state at the throw (all nodes with their values and links, and all
  container objects with their sizes) is the state before the call. The iterator moves
  take the state read-only (the model gives them no state to return), and when one
  raises, the iterator object itself is as before the call; a dereference changes
  neither.\<close>

theorem throw_is_atomic:
  "(\<forall>e s'. front s l = Some (Inl e, s') \<longrightarrow> s' = s)
   \<and> (\<forall>e s'. back_list s l = Some (Inl e, s') \<longrightarrow> s' = s)
   \<and> (\<forall>e s'. pop_front s l = Some (Inl e, s') \<longrightarrow> s' = s)
   \<and> (\<forall>e s'. pop_back s l = Some (Inl e, s') \<longrightarrow> s' = s)
   \<and> (\<forall>e s'. insert_iter s l pos v = Some (Inl e, s') \<longrightarrow> s' = s)
   \<and> (\<forall>e s'. erase_iter s l pos = Some (Inl e, s') \<longrightarrow> s' = s)
   \<and> (\<forall>e it'. iter_preinc s it = Some (Inl e, it') \<longrightarrow> it' = it)
   \<and> (\<forall>e it'. iter_postinc s it = Some (Inl e, it') \<longrightarrow> it' = it)
   \<and> (\<forall>e it'. iter_predec s it = Some (Inl e, it') \<longrightarrow> it' = it)
   \<and> (\<forall>e it'. iter_postdec s it = Some (Inl e, it') \<longrightarrow> it' = it)
   \<and> (\<forall>e it'. citer_preinc s it = Some (Inl e, it') \<longrightarrow> it' = it)
   \<and> (\<forall>e it'. citer_postinc s it = Some (Inl e, it') \<longrightarrow> it' = it)
   \<and> (\<forall>e it'. citer_predec s it = Some (Inl e, it') \<longrightarrow> it' = it)
   \<and> (\<forall>e it'. citer_postdec s it = Some (Inl e, it') \<longrightarrow> it' = it)"
  using throw_keeps_state [of s l] throw_keeps_iterator [of s it] by blast

theorem throw_is_atomic_witness:
  "front ex_empty 0 = Some (Inl container_is_empty, ex_empty)
   \<and> back_list ex_empty 0 = Some (Inl container_is_empty, ex_empty)
   \<and> pop_front ex_empty 0 = Some (Inl container_is_empty, ex_empty)
   \<and> pop_back ex_empty 0 = Some (Inl container_is_empty, ex_empty)
   \<and> insert_iter ex_empty 0 ex_unset 7 = Some (Inl invalid_iterator, ex_empty)
   \<and> erase_iter ex_empty 0 ex_unset = Some (Inl container_is_empty, ex_empty)
   \<and> iter_preinc ex_empty ex_unset = Some (Inl invalid_iterator, ex_unset)
   \<and> iter_postdec ex_empty ex_unset = Some (Inl invalid_iterator, ex_unset)"
  using throw_is_atomic [of ex_empty 0 ex_unset 7 ex_unset]
  by (simp add: front_def back_list_def pop_front_def pop_back_def insert_iter_def erase_iter_def
      iter_preinc_def iter_postdec_def empty_list_def obj_at_def ex_empty_def ex_unset_def)

subsection \<open>Erasing at an iterator\<close>

text \<open>C3. Let the container at \<open>l\<close> be valid, with nodes \<open>as\<close> holding the values \<open>xs\<close>.
  If it is empty, \<^verbatim>\<open>erase(pos)\<close> raises \<^verbatim>\<open>container_is_empty\<close> whatever \<open>pos\<close> is (this check
  comes first). If it is not empty and \<open>pos\<close> belongs to another container or equals
  \<^verbatim>\<open>end()\<close>, it raises \<^verbatim>\<open>invalid_iterator\<close>. If \<open>pos\<close> belongs to this container and stands on
  its \<open>i\<close>-th node, the call removes exactly that node and its value from the sequence,
  releases the node, and returns the iterator that \<^verbatim>\<open>++pos\<close> gave before the call, which
  is \<^verbatim>\<open>end()\<close> when the node was the last one.\<close>

theorem erase_contract:
  assumes "repr s l as xs" and "obj_at s l = Some L"
  shows "(as = [] \<longrightarrow> erase_iter s l pos = Some (Inl container_is_empty, s))
    \<and> (as \<noteq> [] \<and> (container pos \<noteq> Some l
                     \<or> (case end_list s l of None \<Rightarrow> False | Some e \<Rightarrow> iter_eq pos e))
          \<longrightarrow> erase_iter s l pos = Some (Inl invalid_iterator, s))
    \<and> (\<forall>i<length as. container pos = Some l \<and> current pos = Some (as ! i) \<longrightarrow>
          (\<exists>s' nxt. iter_preinc s pos = Some (Inr nxt, nxt)
             \<and> erase_iter s l pos = Some (Inr nxt, s')
             \<and> repr s' l (take i as @ drop (Suc i) as) (take i xs @ drop (Suc i) xs)
             \<and> node_at s' (as ! i) = None
             \<and> (Suc i = length as \<longrightarrow> end_list s' l = Some nxt)))"
proof (intro conjI impI allI)
  assume "as = []"
  with assms(1) show "erase_iter s l pos = Some (Inl container_is_empty, s)"
    by (simp add: erase_iter_empty)
next
  assume "as \<noteq> [] \<and> (container pos \<noteq> Some l
           \<or> (case end_list s l of None \<Rightarrow> False | Some e \<Rightarrow> iter_eq pos e))"
  with erase_iter_invalid[OF assms(1), of pos] show "erase_iter s l pos = Some (Inl invalid_iterator, s)"
    by blast
next
  fix i assume "i < length as" "container pos = Some l \<and> current pos = Some (as ! i)"
  with erase_iter_nth[OF assms, of i pos]
  show "\<exists>s' nxt. iter_preinc s pos = Some (Inr nxt, nxt)
             \<and> erase_iter s l pos = Some (Inr nxt, s')
             \<and> repr s' l (take i as @ drop (Suc i) as) (take i xs @ drop (Suc i) xs)
             \<and> node_at s' (as ! i) = None
             \<and> (Suc i = length as \<longrightarrow> end_list s' l = Some nxt)"
    by blast
qed

theorem erase_contract_witness:
  "repr ex_three 0 [2, 3, 4] [10, 20, 30] \<and> obj_at ex_three 0 = Some \<lparr>head = 0, tail = 1, list_size = 3\<rparr>
   \<and> (\<exists>s'. erase_iter ex_three 0 \<lparr>current = Some 4, container = Some 0\<rparr>
              = Some (Inr \<lparr>current = Some 1, container = Some 0\<rparr>, s')
         \<and> repr s' 0 [2, 3] [10, 20] \<and> node_at s' 4 = None
         \<and> end_list s' 0 = Some \<lparr>current = Some 1, container = Some 0\<rparr>)
   \<and> erase_iter ex_three 0 \<lparr>current = Some 1, container = Some 0\<rparr> = Some (Inl invalid_iterator, ex_three)
   \<and> erase_iter ex_three 0 \<lparr>current = Some 3, container = Some 5\<rparr> = Some (Inl invalid_iterator, ex_three)
   \<and> erase_iter ex_empty 0 \<lparr>current = Some 1, container = Some 5\<rparr> = Some (Inl container_is_empty, ex_empty)"
proof -
  have r: "repr ex_three 0 [2, 3, 4] [10, 20, 30]"
    by (simp add: repr_def obj_at_def ex_three_def cells_def links_def node_at_def read_data_def)
  have o: "obj_at ex_three 0 = Some \<lparr>head = 0, tail = 1, list_size = 3\<rparr>"
    by (simp add: obj_at_def ex_three_def)
  have r0: "repr ex_empty 0 [] ([] :: int list)"
    by (simp add: repr_def obj_at_def ex_empty_def cells_def links_def node_at_def read_data_def)
  have o0: "obj_at ex_empty 0 = Some \<lparr>head = 0, tail = 1, list_size = 0\<rparr>"
    by (simp add: obj_at_def ex_empty_def)
  have e: "end_list ex_three 0 = Some \<lparr>current = Some 1, container = Some 0\<rparr>"
    by (simp add: end_list_def o)
  have i: "iter_preinc ex_three \<lparr>current = Some 4, container = Some 0\<rparr>
      = Some (Inr \<lparr>current = Some 1, container = Some 0\<rparr>, \<lparr>current = Some 1, container = Some 0\<rparr>)"
    by (simp add: iter_preinc_def deref_list_def obj_at_def node_at_def ex_three_def)
  from erase_contract[OF r o, of "\<lparr>current = Some 4, container = Some 0\<rparr>"]
    erase_contract[OF r o, of "\<lparr>current = Some 1, container = Some 0\<rparr>"]
    erase_contract[OF r o, of "\<lparr>current = Some 3, container = Some 5\<rparr>"]
    erase_contract[OF r0 o0, of "\<lparr>current = Some 1, container = Some 5\<rparr>"]
  show ?thesis using r o
    apply (simp add: e iter_eq_def)
    apply (elim conjE)
    subgoal premises p using p(1)[rule_format, of 2] by (auto simp: i)
    done
qed

text \<open>The third case needs a position that stands on a node of the container. The
  iterator of \<open>ex_kept\<close> names \<open>B\<close>, is not \<^verbatim>\<open>B.end()\<close>, and \<open>B\<close> is the valid container \<open>[5]\<close>;
  yet its node belongs to \<open>A\<close>. \<^verbatim>\<open>B.erase(it)\<close> raises nothing and returns the iterator
  after that node; afterwards \<open>B\<close> still holds its node 11 with the value 5 while
  \<^verbatim>\<open>B.size()\<close> is 0, and the node is gone from \<open>A\<close>: no element of \<open>B\<close> was removed.\<close>

theorem erase_of_moved_node:
  "ex_kept_erase =
     Some ((True, False, True), Inr \<lparr>current = Some 5, container = Some 1\<rparr>,
           (Some 0, Some [11], Some [Some 5]), Some [4, 5, 6, 9, 10, 7])"
  by code_simp

subsection \<open>Reversal\<close>

text \<open>C7. On a valid container with nodes \<open>as\<close> holding \<open>xs\<close>, \<^verbatim>\<open>reverse()\<close> returns, and
  afterwards the container is valid with the same nodes in the opposite order,
  \<open>rev as\<close>, holding \<open>rev xs\<close>. It allocates and frees nothing, changes no stored value
  and touches no cell outside the container (\<open>links_only\<close>): only links and the
  container's \<^verbatim>\<open>head\<close> and \<^verbatim>\<open>tail\<close> change. A second \<^verbatim>\<open>reverse()\<close> gives back the original
  state, links and sentinels included.\<close>

theorem reverse_involution:
  assumes "repr s l as xs" and "obj_at s l = Some L"
  shows "\<exists>s'. reverse s l = Some s' \<and> repr s' l (rev as) (rev xs)
           \<and> links_only s s' (set (cells L as)) \<and> reverse s' l = Some s"
proof -
  from reverse_spec[OF assms] obtain s' where
    s': "reverse s l = Some s'" "repr s' l (rev as) (rev xs)" "links_only s s' (set (cells L as))"
    by blast
  from reverse_twice[OF assms(1)] s'(1) have "reverse s' l = Some s" by auto
  with s' show ?thesis by blast
qed

theorem reverse_involution_witness:
  "repr ex_three 0 [2, 3, 4] [10, 20, 30]
   \<and> obj_at ex_three 0 = Some \<lparr>head = 0, tail = 1, list_size = 3\<rparr>
   \<and> (\<exists>s'. reverse ex_three 0 = Some s' \<and> repr s' 0 [4, 3, 2] [30, 20, 10]
         \<and> reverse s' 0 = Some ex_three)"
proof -
  have o: "obj_at ex_three 0 = Some \<lparr>head = 0, tail = 1, list_size = 3\<rparr>"
    by (simp add: obj_at_def ex_three_def)
  from reverse_involution[OF ex_three_repr o] ex_three_repr o show ?thesis
    by auto
qed

subsection \<open>Consecutive duplicates\<close>

text \<open>C6. On a valid container with nodes \<open>as\<close> holding \<open>xs\<close>, \<^verbatim>\<open>unique()\<close> returns without
  error and leaves the values \<open>remdups_adj xs\<close>: of every maximal run of adjacent equal
  values one is left, so equal values that are not adjacent all stay (\<open>[1, 1, 2, 1, 1]\<close>
  becomes \<open>[1, 2, 1]\<close>). The nodes left are those of \<open>uniq_pairs\<close>, the first node of each
  run, and they are a subsequence of \<open>as\<close>: the survivors keep their relative order.\<close>

theorem unique_consecutive:
  assumes "repr s l as xs"
  shows "\<exists>s'. unique s l = Some (Inr (), s')
           \<and> repr s' l (map fst (uniq_pairs (zip as xs))) (remdups_adj xs)
           \<and> subseq (map fst (uniq_pairs (zip as xs))) as"
  using unique_spec[OF assms] uniq_pairs_subseq[of as xs] by blast

theorem unique_consecutive_witness:
  "repr ex_runs 0 [2, 3, 4, 5, 6] [1, 1, 2, 1, 1]
   \<and> (\<exists>s'. unique ex_runs 0 = Some (Inr (), s') \<and> repr s' 0 [2, 4, 5] [1, 2, 1])"
  using unique_consecutive[OF ex_runs_repr] ex_runs_repr by simp

subsection \<open>Sorting\<close>

text \<open>C4. Let the container be valid with nodes \<open>as\<close> holding \<open>xs\<close>, and let the sort
  routine be correct (\<open>sort_ok\<close>: for every buffer its result is ascending and a
  permutation of the buffer). Then \<^verbatim>\<open>sort()\<close> returns without error; the container is
  valid with the same nodes \<open>as\<close>, in the same order, now holding \<open>ys\<close>, which is ascending
  and a permutation of \<open>xs\<close> (it is the routine's result when there are at least two
  elements); nothing was allocated or freed and no link or container object changed
  (\<open>values_only\<close>); and calling \<^verbatim>\<open>sort()\<close> again changes nothing at all.\<close>

theorem sort_sorts:
  assumes "repr s l as xs" and "sort_ok ext_sort"
  shows "\<exists>s' ys. sort_list ext_sort s l = Some (Inr (), s') \<and> repr s' l as ys
           \<and> ys = (if length xs \<le> 1 then xs else ext_sort (\<lambda>a b. a < b) xs)
           \<and> sorted ys \<and> mset ys = mset xs \<and> values_only s s' (set as)
           \<and> sort_list ext_sort s' l = Some (Inr (), s')"
proof -
  let ?srt = "ext_sort (\<lambda>a b. a < b)"
  from assms(2) have ok: "\<And>zs. sorted (?srt zs)" "\<And>zs. mset (?srt zs) = mset zs"
    by (simp_all add: sort_ok_def)
  have len: "length (?srt zs) = length zs" for zs using ok(2)[of zs] by (metis size_mset)
  have lx: "length xs = length as" using assms(1) by (rule repr_length)
  define ys where "ys = (if length xs \<le> 1 then xs else ?srt xs)"
  from sort_list_spec[where ext_sort = ext_sort, OF assms(1) len[of xs]] lx obtain s' where
    s': "sort_list ext_sort s l = Some (Inr (), s')" "repr s' l as ys" "values_only s s' (set as)"
    by (auto simp: ys_def)
  have so: "sorted ys" using ok(1) by (simp add: ys_def sorted_short)
  have ms: "mset ys = mset xs" using ok(2) by (simp add: ys_def)
  from sort_list_spec[where ext_sort = ext_sort, OF s'(2) len[of ys]] obtain s'' where
    s'': "sort_list ext_sort s' l = Some (Inr (), s'')"
    "repr s'' l as (if length as \<le> 1 then ys else ?srt ys)" "values_only s' s'' (set as)"
    by blast
  have "?srt ys = ys" using so ok by (intro sorted_mset_unique) simp_all
  with s''(2) have "repr s'' l as ys" by (simp split: if_splits)
  from repr_same_values_state[OF s'(2) this s''(3)] have "s'' = s'" .
  with s' s''(1) so ms show ?thesis by (auto simp: ys_def)
qed

theorem sort_sorts_witness:
  "repr ex_five 0 [2, 3, 4, 5, 6] [5, 1, 4, 2, 3]
   \<and> sort_ok (\<lambda>cmp. sort :: int list \<Rightarrow> int list)
   \<and> (\<exists>s'. sort_list (\<lambda>cmp. sort) ex_five 0 = Some (Inr (), s')
         \<and> repr s' 0 [2, 3, 4, 5, 6] [1, 2, 3, 4, 5]
         \<and> sort_list (\<lambda>cmp. sort) s' 0 = Some (Inr (), s'))"
proof -
  have ok: "sort_ok (\<lambda>cmp. sort :: int list \<Rightarrow> int list)" by (simp add: sort_ok_def)
  from sort_sorts[OF ex_five_repr ok] ex_five_repr ok show ?thesis by auto
qed

subsection \<open>Merging two sorted containers\<close>

text \<open>C2. Let \<open>l\<close> and \<open>k\<close> be two distinct valid containers that share no cell, with nodes
  \<open>as\<close> holding \<open>xs\<close> and nodes \<open>bs\<close> holding \<open>ys\<close>, both ascending. Then \<^verbatim>\<open>l.merge(k)\<close>
  returns, and afterwards \<open>l\<close> is valid with the nodes \<open>cs\<close> holding \<open>zs\<close>, where
  \<^item> \<open>cs\<close> and \<open>zs\<close> are the merge \<open>merge_pairs\<close> of the two sequences of nodes with their
    values, which takes the node of \<open>k\<close> first only when its value is strictly less;
  \<^item> \<open>zs\<close> is ascending and has exactly the values of \<open>xs\<close> and \<open>ys\<close>;
  \<^item> the nodes of \<open>l\<close> among \<open>cs\<close> are \<open>as\<close> in their order, and those of \<open>k\<close> are \<open>bs\<close> in
    their order;
  \<^item> whenever a node of \<open>k\<close> stands before a node of \<open>l\<close> in \<open>cs\<close>, its value is strictly
    less: among equal values the elements of \<open>l\<close> come first;
  \<^item> nothing was allocated or freed and no stored value changed, only links of the
    cells of the two containers (\<open>links_only\<close>): the nodes were relinked, not copied;
  \<^item> \<open>k\<close> is a valid empty container, with size 0 and the sentinels it had, linked to
    each other.\<close>

theorem merge_stable:
  assumes "repr s l as xs" and "repr s k bs ys" and "l \<noteq> k" and "sep s l as k bs"
    and "sorted xs" and "sorted ys" and "obj_at s l = Some L" and "obj_at s k = Some K"
  shows "\<exists>s' cs zs. merge s l k = Some s' \<and> repr s' l cs zs
           \<and> cs = map fst (merge_pairs (zip as xs) (zip bs ys))
           \<and> zs = map snd (merge_pairs (zip as xs) (zip bs ys))
           \<and> sorted zs \<and> mset zs = mset xs + mset ys
           \<and> filter (\<lambda>c. c \<in> set as) cs = as \<and> filter (\<lambda>c. c \<in> set bs) cs = bs
           \<and> sorted_wrt (\<lambda>p q. fst p \<in> set bs \<and> fst q \<in> set as \<longrightarrow> snd p < snd q) (zip cs zs)
           \<and> links_only s s' (set (cells L as) \<union> set (cells K bs))
           \<and> repr s' k [] [] \<and> obj_at s' k = Some (K\<lparr>list_size := 0\<rparr>)"
proof -
  let ?za = "zip as xs" and ?zb = "zip bs ys"
  let ?m = "merge_pairs ?za ?zb"
  from merge_spec[OF assms(1-4,7,8)] obtain s' where
    s': "merge s l k = Some s'" "repr s' l (map fst ?m) (map snd ?m)" "repr s' k [] []"
    "links_only s s' (set (cells L as) \<union> set (cells K bs))"
    "obj_at s' k = Some (K\<lparr>list_size := 0\<rparr>)"
    by blast
  have la: "length xs = length as" "length ys = length bs"
    using assms(1,2) by (simp_all add: repr_length)
  then have z: "map fst ?za = as" "map snd ?za = xs" "map fst ?zb = bs" "map snd ?zb = ys"
    by simp_all
  from assms(4,7,8) have dj: "set as \<inter> set bs = {}" by (auto simp: sep_def cells_def)
  have fa: "fst ` set ?za \<subseteq> set as" and fb: "fst ` set ?zb \<subseteq> set bs"
    by (auto dest: set_zip_leftD)
  have so: "sorted (map snd ?m)"
    using assms(5,6) by (intro merge_pairs_sorted) (simp_all add: z)
  have "mset (map snd ?m) = image_mset snd (mset ?m)" by simp
  also have "\<dots> = image_mset snd (mset ?za) + image_mset snd (mset ?zb)"
    by (simp only: merge_pairs_mset image_mset_union)
  also have "\<dots> = mset (map snd ?za) + mset (map snd ?zb)" by simp
  finally have "mset (map snd ?m) = mset (map snd ?za) + mset (map snd ?zb)" .
  then have ms: "mset (map snd ?m) = mset xs + mset ys" by (simp add: z)
  have f1: "filter (\<lambda>c. c \<in> set as) (map fst ?m) = as"
    using merge_pairs_filter(1)[OF fa fb dj] by (simp add: filter_map o_def z)
  have f2: "filter (\<lambda>c. c \<in> set bs) (map fst ?m) = bs"
    using merge_pairs_filter(2)[OF fa fb dj] by (simp add: filter_map o_def z)
  have ti: "sorted_wrt (\<lambda>p q. fst p \<in> set bs \<and> fst q \<in> set as \<longrightarrow> snd p < snd q)
              (zip (map fst ?m) (map snd ?m))"
    using merge_pairs_ties[OF fa fb dj] assms(5) by (simp add: z zip_map_fst_snd)
  from s' so ms f1 f2 ti show ?thesis by blast
qed

theorem merge_stable_witness:
  "repr ex_two 0 [4, 5, 6, 7] [1, 3, 3, 5] \<and> repr ex_two 1 [8, 9, 10] [2, 3, 4]
   \<and> sep ex_two 0 [4, 5, 6, 7] 1 [8, 9, 10]
   \<and> (\<exists>s'. merge ex_two 0 1 = Some s'
         \<and> repr s' 0 [4, 8, 5, 6, 9, 10, 7] [1, 2, 3, 3, 3, 4, 5] \<and> repr s' 1 [] []
         \<and> obj_at s' 1 = Some \<lparr>head = 2, tail = 3, list_size = 0\<rparr>)"
  using merge_stable[OF ex_two_repr(1,2) _ ex_two_repr(3) _ _ ex_two_repr(4,5)] ex_two_repr
  by auto

subsection \<open>The container invariant\<close>

text \<open>C1. Take a heap of valid containers that share no cell (\<open>wf_heap\<close>), a correct sort routine,
  and any program over \<^verbatim>\<open>push_back\<close>, \<^verbatim>\<open>push_front\<close>, \<^verbatim>\<open>pop_back\<close>, \<^verbatim>\<open>pop_front\<close>, \<^verbatim>\<open>insert\<close>,
  \<^verbatim>\<open>erase\<close>, \<^verbatim>\<open>clear\<close>, \<^verbatim>\<open>merge\<close>, \<^verbatim>\<open>reverse\<close>, \<^verbatim>\<open>sort\<close> and \<^verbatim>\<open>unique\<close> on these containers,
  in which every position given to \<^verbatim>\<open>insert\<close> or \<^verbatim>\<open>erase\<close> is taken, when the call is made,
  from \<^verbatim>\<open>begin()\<close> of one of the containers by increments: it stands on a node or on the
  tail sentinel of the container it names, which may be another container than the one
  called. The program runs to its end (each call returns or raises, and a raised error is
  caught), the heap is again one of valid containers that share no cell, and every
  container satisfies the invariant: following \<^verbatim>\<open>next\<close> from the head sentinel reaches the
  tail sentinel, \<^verbatim>\<open>size()\<close> is the number of nodes on the way, each of them holds a
  value, and the chain is a consistent doubly-linked path whose head has a null \<^verbatim>\<open>prev\<close>
  and whose tail has a null \<^verbatim>\<open>next\<close>.\<close>

theorem invariant_preserved:
  assumes "wf_heap s M" and "sort_ok ext_sort" and "list_all (op_ok (length M)) ops"
  shows "\<exists>s' M'. run ext_sort s ops = Some s' \<and> wf_heap s' M' \<and> length (objs s') = length (objs s)
           \<and> (\<forall>l<length (objs s'). invariant s' l)"
proof -
  from run_spec[OF assms] obtain s' M' where
    1: "run ext_sort s ops = Some s'" "wf_heap s' M'" "length M' = length M" by blast
  from 1(2,3) assms(1) have "length (objs s') = length (objs s)" by (simp add: wf_heap_def)
  moreover from 1(2) have "\<forall>l<length (objs s'). invariant s' l" by (simp add: wf_invariant)
  ultimately show ?thesis using 1(1,2) by blast
qed

theorem invariant_preserved_witness:
  "wf_heap ex_two [([4, 5, 6, 7], [1, 3, 3, 5]), ([8, 9, 10], [2, 3, 4])]
   \<and> sort_ok (\<lambda>cmp. sort :: int list \<Rightarrow> int list)
   \<and> list_all (op_ok 2) ex_program
   \<and> (\<exists>s'. run (\<lambda>cmp. sort) ex_two ex_program = Some s' \<and> invariant s' 0 \<and> invariant s' 1)"
proof -
  have ok: "sort_ok (\<lambda>cmp. sort :: int list \<Rightarrow> int list)" by (simp add: sort_ok_def)
  have p: "list_all (op_ok (length [([4, 5, 6, 7], [1, 3, 3, 5 :: int]), ([8 :: nat, 9, 10], [2, 3, 4])]))
             ex_program"
    by (simp add: ex_program_def)
  from invariant_preserved[OF ex_two_wf ok p] obtain s' where
    s': "run (\<lambda>cmp. sort) ex_two ex_program = Some s'" "length (objs s') = length (objs ex_two)"
    "\<forall>l<length (objs s'). invariant s' l" by blast
  from s'(2) have "length (objs s') = 2" by (simp add: ex_two_def)
  with s'(3) have "invariant s' 0" "invariant s' 1" by simp_all
  moreover have "list_all (op_ok 2) ex_program" by (simp add: ex_program_def)
  ultimately show ?thesis using s'(1) ex_two_wf ok by blast
qed

text \<open>The restriction on positions is needed. With the iterator of \<open>ex_moved\<close>, kept across
  \<^verbatim>\<open>merge\<close>, the call of \<^verbatim>\<open>erase\<close> returns the iterator after the erased node; then \<open>A\<close>
  reports seven elements and holds six nodes, and \<open>B\<close> reports none and holds one. The
  invariant fails for both, after a sequence of public operations none of which
  raised.\<close>

theorem kept_iterator_breaks_size:
  "ex_moved_view =
     Some (Inr \<lparr>current = Some 5, container = Some 1\<rparr>,
           (Some 7, Some [4, 5, 6, 9, 10, 7], False),
           (Some 0, Some [11], False))"
  by code_simp

subsection \<open>Copies\<close>

text \<open>C8. In a heap of valid containers that share no cell, let the container at \<open>k\<close> have the
  nodes \<open>bs\<close> holding the values \<open>ys\<close>. The copy constructor returns a new container, and
  the assignment to any other container \<open>l\<close> returns \<open>l\<close>, such that afterwards: the copy
  is a valid container whose nodes \<open>new\<close> hold the values \<open>ys\<close>, in this order; every node
  of \<open>new\<close> was allocated by the call; the source still has the nodes \<open>bs\<close> holding \<open>ys\<close>;
  and copy and source share no cell. From then on every program runs to its end, leaves
  the copy with the nodes \<open>new\<close> and the values \<open>ys\<close> (so its size and contents) when it
  makes no call on the copy and merges it into nothing, and leaves the source with
  \<open>bs\<close> and \<open>ys\<close> when it makes no call on the source and merges it into nothing.\<close>

theorem copy_is_deep:
  assumes "wf_heap s M" and "k < length M" and "M ! k = (bs, ys)" and "sort_ok ext_sort"
  shows "(\<exists>s1 new. list_copy_ctor s k = Some (Inr (length M), s1)
            \<and> repr s1 (length M) new ys \<and> (\<forall>a\<in>set new. length (nodes s) \<le> a)
            \<and> repr s1 k bs ys \<and> sep s1 (length M) new k bs
            \<and> (\<forall>ops. list_all (op_ok (Suc (length M))) ops \<longrightarrow>
                 (\<exists>s2. run ext_sort s1 ops = Some s2
                    \<and> (untouched (length M) ops \<longrightarrow> repr s2 (length M) new ys)
                    \<and> (untouched k ops \<longrightarrow> repr s2 k bs ys))))
       \<and> (\<forall>l<length M. l \<noteq> k \<longrightarrow>
            (\<exists>s1 new. assign s l k = Some (Inr l, s1)
               \<and> repr s1 l new ys \<and> (\<forall>a\<in>set new. length (nodes s) \<le> a)
               \<and> repr s1 k bs ys \<and> sep s1 l new k bs
               \<and> (\<forall>ops. list_all (op_ok (length M)) ops \<longrightarrow>
                    (\<exists>s2. run ext_sort s1 ops = Some s2
                       \<and> (untouched l ops \<longrightarrow> repr s2 l new ys)
                       \<and> (untouched k ops \<longrightarrow> repr s2 k bs ys)))))"
proof (intro conjI allI impI)
  let ?c = "length M"
  from wf_copy_ctor[OF assms(1,2)] obtain s1 new where
    1: "list_copy_ctor s k = Some (Inr ?c, s1)" "wf_heap s1 (M @ [(new, snd (M ! k))])"
    "\<forall>a\<in>set new. length (nodes s) \<le> a" by blast
  let ?M = "M @ [(new, ys)]"
  have w: "wf_heap s1 ?M" using 1(2) assms(3) by simp
  have c: "?c < length ?M" and k: "k < length ?M" and ne: "?c \<noteq> k" using assms(2) by simp_all
  have rc: "repr s1 ?c new ys" using wfD(2)[OF w c] by simp
  have rk: "repr s1 k bs ys" using wfD(2)[OF w k] assms(2,3) by (simp add: nth_append)
  have sp: "sep s1 ?c new k bs" using wfD(3)[OF w c k ne] assms(2,3) by (simp add: nth_append)
  have iso: "\<exists>s2. run ext_sort s1 ops = Some s2
               \<and> (untouched ?c ops \<longrightarrow> repr s2 ?c new ys)
               \<and> (untouched k ops \<longrightarrow> repr s2 k bs ys)"
    if "list_all (op_ok (Suc ?c)) ops" for ops
  proof -
    from that have "list_all (op_ok (length ?M)) ops" by simp
    from run_untouched[OF w assms(4) this] obtain s2 where
      2: "run ext_sort s1 ops = Some s2"
      "\<forall>c<length ?M. untouched c ops \<longrightarrow> repr s2 c (fst (?M ! c)) (snd (?M ! c))" by blast
    from 2(2)[rule_format, OF c] have "untouched ?c ops \<longrightarrow> repr s2 ?c new ys" by simp
    moreover from 2(2)[rule_format, OF k] assms(2,3)
    have "untouched k ops \<longrightarrow> repr s2 k bs ys" by (simp add: nth_append)
    ultimately show ?thesis using 2(1) by blast
  qed
  show "\<exists>s1 new. list_copy_ctor s k = Some (Inr (length M), s1)
            \<and> repr s1 (length M) new ys \<and> (\<forall>a\<in>set new. length (nodes s) \<le> a)
            \<and> repr s1 k bs ys \<and> sep s1 (length M) new k bs
            \<and> (\<forall>ops. list_all (op_ok (Suc (length M))) ops \<longrightarrow>
                 (\<exists>s2. run ext_sort s1 ops = Some s2
                    \<and> (untouched (length M) ops \<longrightarrow> repr s2 (length M) new ys)
                    \<and> (untouched k ops \<longrightarrow> repr s2 k bs ys)))"
    using 1(1,3) rc rk sp iso by blast
next
  fix l assume l: "l < length M" and ne: "l \<noteq> k"
  from wf_assign[OF assms(1) l assms(2) ne] obtain s1 new where
    1: "assign s l k = Some (Inr l, s1)" "wf_heap s1 (M[l := (new, snd (M ! k))])"
    "\<forall>a\<in>set new. length (nodes s) \<le> a" by blast
  let ?M = "M[l := (new, ys)]"
  have w: "wf_heap s1 ?M" using 1(2) assms(3) by simp
  have l': "l < length ?M" and k: "k < length ?M" using l assms(2) by simp_all
  have rc: "repr s1 l new ys" using wfD(2)[OF w l'] l by simp
  have rk: "repr s1 k bs ys" using wfD(2)[OF w k] assms(3) ne by simp
  have sp: "sep s1 l new k bs" using wfD(3)[OF w l' k ne] assms(3) l ne by simp
  have iso: "\<exists>s2. run ext_sort s1 ops = Some s2
               \<and> (untouched l ops \<longrightarrow> repr s2 l new ys)
               \<and> (untouched k ops \<longrightarrow> repr s2 k bs ys)"
    if "list_all (op_ok (length M)) ops" for ops
  proof -
    from that have "list_all (op_ok (length ?M)) ops" by simp
    from run_untouched[OF w assms(4) this] obtain s2 where
      2: "run ext_sort s1 ops = Some s2"
      "\<forall>c<length ?M. untouched c ops \<longrightarrow> repr s2 c (fst (?M ! c)) (snd (?M ! c))" by blast
    from 2(2)[rule_format, OF l'] l have "untouched l ops \<longrightarrow> repr s2 l new ys" by simp
    moreover from 2(2)[rule_format, OF k] assms(3) ne
    have "untouched k ops \<longrightarrow> repr s2 k bs ys" by simp
    ultimately show ?thesis using 2(1) by blast
  qed
  show "\<exists>s1 new. assign s l k = Some (Inr l, s1)
               \<and> repr s1 l new ys \<and> (\<forall>a\<in>set new. length (nodes s) \<le> a)
               \<and> repr s1 k bs ys \<and> sep s1 l new k bs
               \<and> (\<forall>ops. list_all (op_ok (length M)) ops \<longrightarrow>
                    (\<exists>s2. run ext_sort s1 ops = Some s2
                       \<and> (untouched l ops \<longrightarrow> repr s2 l new ys)
                       \<and> (untouched k ops \<longrightarrow> repr s2 k bs ys)))"
    using 1(1,3) rc rk sp iso by blast
qed

theorem copy_is_deep_witness:
  "wf_heap ex_pair [([4, 5, 6], [1, 2, 3]), ([7], [7])]
   \<and> sort_ok (\<lambda>cmp. sort :: int list \<Rightarrow> int list)
   \<and> (\<exists>s1 new. list_copy_ctor ex_pair 0 = Some (Inr 2, s1) \<and> repr s1 2 new [1, 2, 3]
         \<and> (\<exists>s2. run (\<lambda>cmp. sort) s1 [(0, Push_back 4)] = Some s2
                \<and> repr s2 2 new [1, 2, 3] \<and> size_list s2 2 = Some 3)
         \<and> (\<exists>s2. run (\<lambda>cmp. sort) s1 [(2, Pop_front), (2, Push_back 9)] = Some s2
                \<and> repr s2 0 [4, 5, 6] [1, 2, 3]))
   \<and> (\<exists>s1 new. assign ex_pair 1 0 = Some (Inr 1, s1) \<and> repr s1 1 new [1, 2, 3]
         \<and> (\<exists>s2. run (\<lambda>cmp. sort) s1 [(0, Push_back 4)] = Some s2
                \<and> repr s2 1 new [1, 2, 3] \<and> size_list s2 1 = Some 3))"
proof -
  let ?M = "[([4, 5, 6], [1, 2, 3 :: int]), ([7 :: nat], [7])]"
  let ?ext = "\<lambda>cmp :: int \<Rightarrow> int \<Rightarrow> bool. sort :: int list \<Rightarrow> int list"
  have ok: "sort_ok ?ext" by (simp add: sort_ok_def)
  have k: "0 < length ?M" and Mk: "?M ! 0 = ([4, 5, 6], [1, 2, 3])" by simp_all
  have n: "length ?M = 2" by simp
  have p1: "list_all (op_ok (Suc (length ?M))) [(0, Push_back (4 :: int))]"
    and u1: "untouched (length ?M) [(0 :: nat, Push_back (4 :: int))]"
    and p2: "list_all (op_ok (Suc (length ?M))) [(2, Pop_front :: int op), (2, Push_back 9)]"
    and u2: "untouched 0 [(2 :: nat, Pop_front :: int op), (2, Push_back 9)]"
    and p3: "list_all (op_ok (length ?M)) [(0, Push_back (4 :: int))]"
    and u3: "untouched 1 [(0 :: nat, Push_back (4 :: int))]"
    by (simp_all add: untouched_def)
  note th = copy_is_deep[OF ex_pair_wf k Mk ok]
  from th obtain s1 new where
    1: "list_copy_ctor ex_pair 0 = Some (Inr (length ?M), s1)" "repr s1 (length ?M) new [1, 2, 3]"
    "\<forall>ops. list_all (op_ok (Suc (length ?M))) ops \<longrightarrow>
       (\<exists>s2. run ?ext s1 ops = Some s2
          \<and> (untouched (length ?M) ops \<longrightarrow> repr s2 (length ?M) new [1, 2, 3])
          \<and> (untouched 0 ops \<longrightarrow> repr s2 0 [4, 5, 6] [1, 2, 3]))"
    by blast
  from 1(3) p1 u1 obtain s2 where
    2: "run ?ext s1 [(0, Push_back 4)] = Some s2" "repr s2 (length ?M) new [1, 2, 3]"
    by blast
  from 1(3) p2 u2 obtain s3 where
    3: "run ?ext s1 [(2, Pop_front), (2, Push_back 9)] = Some s3" "repr s3 0 [4, 5, 6] [1, 2, 3]"
    by blast
  note c1 = 1(1,2)[unfolded n] and c2 = 2[unfolded n]
  have sz: "size_list s2 2 = Some 3"
    using repr_size_list[OF c2(2)] repr_length[OF c2(2)] by simp
  have A: "\<exists>s1 new. list_copy_ctor ex_pair 0 = Some (Inr 2, s1) \<and> repr s1 2 new [1, 2, 3]
         \<and> (\<exists>s2. run ?ext s1 [(0, Push_back 4)] = Some s2
                \<and> repr s2 2 new [1, 2, 3] \<and> size_list s2 2 = Some 3)
         \<and> (\<exists>s2. run ?ext s1 [(2, Pop_front), (2, Push_back 9)] = Some s2
                \<and> repr s2 0 [4, 5, 6] [1, 2, 3])"
    using c1 c2 3 sz by blast
  have l: "1 < length ?M" "(1 :: nat) \<noteq> 0" by simp_all
  from th l obtain t1 new' where
    4: "assign ex_pair 1 0 = Some (Inr 1, t1)" "repr t1 1 new' [1, 2, 3]"
    "\<forall>ops. list_all (op_ok (length ?M)) ops \<longrightarrow>
       (\<exists>s2. run ?ext t1 ops = Some s2
          \<and> (untouched 1 ops \<longrightarrow> repr s2 1 new' [1, 2, 3])
          \<and> (untouched 0 ops \<longrightarrow> repr s2 0 [4, 5, 6] [1, 2, 3]))"
    by blast
  from 4(3) p3 u3 obtain t2 where
    5: "run ?ext t1 [(0, Push_back 4)] = Some t2" "repr t2 1 new' [1, 2, 3]"
    by blast
  have sz': "size_list t2 1 = Some 3"
    using repr_size_list[OF 5(2)] repr_length[OF 5(2)] by simp
  have B: "\<exists>s1 new. assign ex_pair 1 0 = Some (Inr 1, s1) \<and> repr s1 1 new [1, 2, 3]
         \<and> (\<exists>s2. run ?ext s1 [(0, Push_back 4)] = Some s2
                \<and> repr s2 1 new [1, 2, 3] \<and> size_list s2 1 = Some 3)"
    using 4(1,2) 5 sz' by blast
  from ex_pair_wf ok A B show ?thesis by blast
qed

end
